theory Spec2Isabelle
  imports Main
begin

section \<open>Values handled by the analyzer\<close>

text \<open>
  The analyzer reads one JSON object per line (\<^verbatim>\<open>json.loads\<close>) and returns a nested
  structure of Python lists, dicts, ints and strings (\<^verbatim>\<open>generate_ncdu_tree\<close>). Both are
  values of the datatype \<open>json\<close>. A dict is an association list in insertion order, each
  key listed once. The analyzer never computes with a number: the \<^verbatim>\<open>size\<close> of a record is
  carried into the entry and into the output as it was read.
\<close>

datatype json =
    JNull
  | JBool bool
  | JInt int
  | JStr string
  | JArr "json list"
  | JObj "(string \<times> json) list"

text \<open>The exceptions the code under study can raise.\<close>

datatype error =
    JSONDecodeError
  | KeyError string
  | TypeError
  | RecursionError

text \<open>
  \<^verbatim>\<open>record[key]\<close>: a dict raises \<^verbatim>\<open>KeyError\<close> on a missing key; every other JSON value
  (list, string, number, boolean, null) raises \<^verbatim>\<open>TypeError\<close> on a string subscript.
\<close>

fun getitem :: "json \<Rightarrow> string \<Rightarrow> error + json" where
  "getitem (JObj kvs) k = (case map_of kvs k of None \<Rightarrow> Inl (KeyError k) | Some v \<Rightarrow> Inr v)"
| "getitem _ k = Inl TypeError"

section \<open>String and path helpers of the Python library\<close>

text \<open>
  \<^verbatim>\<open>s.split(sep)\<close> for a one-character separator: the result always has at least one
  element, and \<open>n\<close> separators give \<open>n + 1\<close> pieces (empty ones included).
\<close>

fun split :: "char \<Rightarrow> string \<Rightarrow> string list" where
  "split c [] = [[]]"
| "split c (x # xs) =
     (if x = c then [] # split c xs
      else (let r = split c xs in (x # hd r) # tl r))"

text \<open>\<^verbatim>\<open>sep.join(parts)\<close>.\<close>

fun join :: "string \<Rightarrow> string list \<Rightarrow> string" where
  "join sep [] = []"
| "join sep [p] = p"
| "join sep (p # q # ps) = p @ sep @ join sep (q # ps)"

text \<open>\<^verbatim>\<open>s.rfind(c)\<close>: the highest index of \<open>c\<close> in \<open>s\<close>, or \<open>-1\<close>.\<close>

definition rfind :: "string \<Rightarrow> char \<Rightarrow> int" where
  "rfind s c =
     (if c \<in> set s then int (length s) - 1 - int (length (takeWhile (\<lambda>x. x \<noteq> c) (rev s)))
      else - 1)"

text \<open>\<^verbatim>\<open>s.rstrip(c)\<close>.\<close>

definition rstrip :: "string \<Rightarrow> char \<Rightarrow> string" where
  "rstrip s c = rev (dropWhile (\<lambda>x. x = c) (rev s))"

text \<open>
  \<^verbatim>\<open>os.path.basename\<close> and \<^verbatim>\<open>os.path.dirname\<close> of \<^verbatim>\<open>posixpath\<close>:
  \<^verbatim>\<open>
  def basename(p):
      i = p.rfind('/') + 1
      return p[i:]
  def dirname(p):
      i = p.rfind('/') + 1
      head = p[:i]
      if head and head != '/' * len(head):
          head = head.rstrip('/')
      return head
  \<close>
\<close>

definition basename :: "string \<Rightarrow> string" where
  "basename p = (let i = rfind p (CHR ''/'') + 1 in drop (nat i) p)"

definition dirname :: "string \<Rightarrow> string" where
  "dirname p =
     (let i = rfind p (CHR ''/'') + 1;
          head = take (nat i) p
      in if head \<noteq> [] \<and> head \<noteq> replicate (length head) (CHR ''/'')
         then rstrip head (CHR ''/'') else head)"

section \<open>The tree node model\<close>

text \<open>
  \<^verbatim>\<open>FSEntry\<close> objects are shared: the same object is referenced from the path index, from
  the root list and from its parent's \<^verbatim>\<open>sub\<close> list, and \<^verbatim>\<open>add_entry\<close> mutates it in
  place. The model keeps the objects in a store (a list, the address of an object being
  its position) and lets every reference be an address. The field \<^verbatim>\<open>size\<close> is named
  \<open>fsize\<close> here.
\<close>

record FSEntry =
  name :: string
  fsize :: json
  sub :: "nat list"

text \<open>\<^verbatim>\<open>FSEntry.from_filename(path, size=0)\<close>.\<close>

definition from_filename :: "string \<Rightarrow> json \<Rightarrow> FSEntry" where
  "from_filename path sz = \<lparr>name = basename path, fsize = sz, sub = []\<rparr>"

text \<open>
  \<^verbatim>\<open>iterate_path_parts\<close>: for every \<open>i < len(p)\<close> the pair of the first \<open>i\<close> and the
  first \<open>i + 1\<close> components, joined again.
\<close>

definition iterate_path_parts :: "string \<Rightarrow> (string \<times> string) list" where
  "iterate_path_parts path =
     (let p = split (CHR ''/'') path
      in map (\<lambda>i. (join ''/'' (take i p), join ''/'' (take (i + 1) p))) [0..<length p])"

section \<open>The analyzer\<close>

text \<open>
  The state of a \<^verbatim>\<open>BorgAnalyzer\<close>: the store of entries, \<^verbatim>\<open>_root_objects\<close>,
  \<^verbatim>\<open>_fs_cache\<close>, and the choice of \<^verbatim>\<open>_process_new_dir\<close> made by the constructor.
\<close>

record BorgAnalyzer =
  heap :: "FSEntry list"
  root_objects :: "nat list"
  fs_cache :: "string \<rightharpoonup> nat"
  full_path :: bool

definition init :: "bool \<Rightarrow> BorgAnalyzer" where
  "init fp = \<lparr>heap = [], root_objects = [], fs_cache = Map.empty, full_path = fp\<rparr>"

text \<open>Placing a new object in the store gives its address.\<close>

definition alloc :: "FSEntry \<Rightarrow> BorgAnalyzer \<Rightarrow> nat \<times> BorgAnalyzer" where
  "alloc e st = (length (heap st), st\<lparr>heap := heap st @ [e]\<rparr>)"

text \<open>\<^verbatim>\<open>parent.add_entry(entry)\<close>, on the objects at addresses \<open>p\<close> and \<open>a\<close>.\<close>

definition add_entry :: "nat \<Rightarrow> nat \<Rightarrow> BorgAnalyzer \<Rightarrow> BorgAnalyzer" where
  "add_entry p a st =
     st\<lparr>heap := (heap st)[p := (heap st ! p)\<lparr>sub := sub (heap st ! p) @ [a]\<rparr>]\<rparr>"

text \<open>
  The loop of \<^verbatim>\<open>_process_new_dir_full_path\<close> over the pairs of \<^verbatim>\<open>iterate_path_parts\<close>.
  The lookup \<^verbatim>\<open>self._fs_cache[parent_path]\<close> raises \<^verbatim>\<open>KeyError\<close> on a missing key.
\<close>

fun for_parts :: "BorgAnalyzer \<Rightarrow> (string \<times> string) list \<Rightarrow> error + BorgAnalyzer" where
  "for_parts st [] = Inr st"
| "for_parts st ((parent_path, part_path) # rest) =
     (case fs_cache st part_path of
        Some _ \<Rightarrow> for_parts st rest
      | None \<Rightarrow>
          (let (a, st1) = alloc (from_filename part_path (JInt 0)) st;
               st2 = st1\<lparr>fs_cache := (fs_cache st1)(part_path \<mapsto> a)\<rparr>
           in if parent_path = ''''
              then for_parts (st2\<lparr>root_objects := root_objects st2 @ [a]\<rparr>) rest
              else (case fs_cache st2 parent_path of
                      None \<Rightarrow> Inl (KeyError parent_path)
                    | Some p \<Rightarrow> for_parts (add_entry p a st2) rest)))"

definition process_new_dir_full_path :: "BorgAnalyzer \<Rightarrow> string \<Rightarrow> error + BorgAnalyzer" where
  "process_new_dir_full_path st path = for_parts st (iterate_path_parts path)"

definition process_new_dir_dataset :: "BorgAnalyzer \<Rightarrow> string \<Rightarrow> error + BorgAnalyzer" where
  "process_new_dir_dataset st path =
     (let (a, st1) = alloc (from_filename path (JInt 0)) st;
          st2 = st1\<lparr>fs_cache := (fs_cache st1)(path \<mapsto> a)\<rparr>
      in Inr (st2\<lparr>root_objects := root_objects st2 @ [a]\<rparr>))"

definition process_new_dir :: "BorgAnalyzer \<Rightarrow> string \<Rightarrow> error + BorgAnalyzer" where
  "process_new_dir st path =
     (if full_path st then process_new_dir_full_path st path
      else process_new_dir_dataset st path)"

text \<open>
  One iteration of the loop of \<^verbatim>\<open>process_lines\<close>, after \<^verbatim>\<open>json.loads\<close>. The order of
  the source is kept: \<^verbatim>\<open>record['path']\<close>, \<^verbatim>\<open>record['type']\<close>, the test for \<^verbatim>\<open>"."\<close>,
  \<^verbatim>\<open>record['size']\<close>, and only then \<^verbatim>\<open>os.path.basename(path)\<close>, which raises
  \<^verbatim>\<open>TypeError\<close> on a path that is not a string. The entry built from the record is
  placed in the store by the three branches that keep a reference to it; the branch
  that calls \<^verbatim>\<open>_process_new_dir\<close> drops it.
\<close>

definition process_record :: "BorgAnalyzer \<Rightarrow> json \<Rightarrow> error + BorgAnalyzer" where
  "process_record st rec =
     (case getitem rec ''path'' of Inl e \<Rightarrow> Inl e | Inr path \<Rightarrow>
      case getitem rec ''type'' of Inl e \<Rightarrow> Inl e | Inr ty \<Rightarrow>
        (let is_dir = (ty = JStr ''d'') in
         if path = JStr ''.'' then Inr st
         else
          (case getitem rec ''size'' of Inl e \<Rightarrow> Inl e | Inr sz \<Rightarrow>
           case path of
             JStr p \<Rightarrow>
               (let entry = from_filename p sz;
                    parent_dir = dirname p
                in if is_dir then
                     (case fs_cache st parent_dir of
                        Some par \<Rightarrow>
                          (let (a, st1) = alloc entry st;
                               st2 = add_entry par a st1
                           in Inr (st2\<lparr>fs_cache := (fs_cache st2)(p \<mapsto> a)\<rparr>))
                      | None \<Rightarrow> process_new_dir st p)
                   else if parent_dir = '''' then
                     (let (a, st1) = alloc entry st;
                          st2 = st1\<lparr>fs_cache := (fs_cache st1)(p \<mapsto> a)\<rparr>
                      in Inr (st2\<lparr>root_objects := root_objects st2 @ [a]\<rparr>))
                   else
                     (case fs_cache st parent_dir of
                        None \<Rightarrow> Inl (KeyError parent_dir)
                      | Some par \<Rightarrow>
                          (let (a, st1) = alloc entry st
                           in Inr (add_entry par a st1))))
           | _ \<Rightarrow> Inl TypeError)))"

text \<open>
  \<^verbatim>\<open>process_lines\<close>. The decoder \<^verbatim>\<open>json.loads\<close> is a parameter \<open>loads\<close>: it gives
  \<open>None\<close> where Python raises \<^verbatim>\<open>JSONDecodeError\<close>. The first exception ends the loop.
\<close>

fun process_lines ::
  "(string \<Rightarrow> json option) \<Rightarrow> BorgAnalyzer \<Rightarrow> string list \<Rightarrow> error + BorgAnalyzer" where
  "process_lines loads st [] = Inr st"
| "process_lines loads st (line # lines) =
     (case loads line of
        None \<Rightarrow> Inl JSONDecodeError
      | Some rec \<Rightarrow>
          (case process_record st rec of
             Inl e \<Rightarrow> Inl e
           | Inr st' \<Rightarrow> process_lines loads st' lines))"

section \<open>The serializer\<close>

text \<open>
  \<^verbatim>\<open>entry_to_ncdu\<close> is plain recursion through the store, and Python ends a recursion
  that goes deeper than the interpreter allows with \<^verbatim>\<open>RecursionError\<close>. The first
  argument is the number of nested calls of \<^verbatim>\<open>entry_to_ncdu\<close> for which the interpreter
  still has room (it depends on the recursion limit and on the frames in use, so it is a
  parameter); \<open>None\<close> is the \<^verbatim>\<open>RecursionError\<close>.
\<close>

fun entry_to_ncdu :: "nat \<Rightarrow> FSEntry list \<Rightarrow> nat \<Rightarrow> json option" where
  "entry_to_ncdu 0 h a = None"
| "entry_to_ncdu (Suc n) h a =
     (let entry = h ! a in
      if length (sub entry) = 0
      then Some (JObj [(''name'', JStr (name entry)), (''dsize'', fsize entry)])
      else map_option (\<lambda>ys. JArr (JObj [(''name'', JStr (name entry))] # ys))
             (those (map (entry_to_ncdu n h) (sub entry))))"

text \<open>
  \<^verbatim>\<open>generate_ncdu_tree\<close>, with \<open>limit\<close> nested calls of \<^verbatim>\<open>entry_to_ncdu\<close> allowed.
\<close>

definition generate_ncdu_tree :: "nat \<Rightarrow> BorgAnalyzer \<Rightarrow> json option" where
  "generate_ncdu_tree limit st =
     map_option
       (\<lambda>xs. JArr [JInt 1, JInt 1, JObj [], JArr (JObj [(''name'', JStr ''/'')] # xs)])
       (those (map (entry_to_ncdu limit (heap st)) (root_objects st)))"

text \<open>
  \<^verbatim>\<open>analyze\<close>, in an interpreter that allows \<open>limit\<close> nested calls of \<^verbatim>\<open>entry_to_ncdu\<close> and
  decodes lines with \<open>loads\<close>.
\<close>

definition analyze ::
  "nat \<Rightarrow> (string \<Rightarrow> json option) \<Rightarrow> string list \<Rightarrow> bool \<Rightarrow> error + json" where
  "analyze limit loads lines fp =
     (case process_lines loads (init fp) lines of
        Inl e \<Rightarrow> Inl e
      | Inr st \<Rightarrow>
          (case generate_ncdu_tree limit st of
             None \<Rightarrow> Inl RecursionError
           | Some doc \<Rightarrow> Inr doc))"

section \<open>Predicates on stores and states\<close>

text \<open>
  In a store built by the analyzer every child was created after its parent: the
  addresses in \<open>sub\<close> are larger than the address of the entry and lie in the store.
\<close>

definition forward_store :: "FSEntry list \<Rightarrow> bool" where
  "forward_store h =
     list_all (\<lambda>p. list_all (\<lambda>c. p < c \<and> c < length h) (sub (h ! p))) [0..<length h]"

text \<open>
  The number of references to the entry at address \<open>a\<close>, from the root list and from
  all the \<open>sub\<close> lists; in a well-formed state every address of the index lies in the
  store, the store is forward, and every entry of the store is referenced exactly once.
\<close>

definition occ :: "BorgAnalyzer \<Rightarrow> nat \<Rightarrow> nat" where
  "occ st a = count_list (root_objects st) a
              + sum_list (map (\<lambda>e. count_list (sub e) a) (heap st))"

definition wf_state :: "BorgAnalyzer \<Rightarrow> bool" where
  "wf_state st \<longleftrightarrow>
     (\<forall>k a. fs_cache st k = Some a \<longrightarrow> a < length (heap st))
     \<and> forward_store (heap st)
     \<and> (\<forall>a. occ st a = (if a < length (heap st) then 1 else 0))"

text \<open>A list of pairs in which each pair starts where the one before it ended.\<close>

fun chained :: "string \<Rightarrow> (string \<times> string) list \<Rightarrow> bool" where
  "chained q [] = True"
| "chained q ((a, b) # r) = (a = q \<and> chained b r)"


text \<open>A list of addresses in which each entry is a child of the one before it.\<close>

fun chain :: "FSEntry list \<Rightarrow> nat list \<Rightarrow> bool" where
  "chain h [] = True"
| "chain h [a] = True"
| "chain h (a # b # r) = (b \<in> set (sub (h ! a)) \<and> chain h (b # r))"

text \<open>
  The state \<open>st'\<close> continues \<open>st\<close>: the store and the root list are extended at the end,
  and the entries of \<open>st\<close> keep their names and sizes and have their \<open>sub\<close> lists extended
  at the end.
\<close>

definition grows :: "BorgAnalyzer \<Rightarrow> BorgAnalyzer \<Rightarrow> bool" where
  "grows st st' \<longleftrightarrow>
     length (heap st) \<le> length (heap st')
     \<and> (\<exists>new. root_objects st' = root_objects st @ new)
     \<and> (\<forall>a<length (heap st).
           name (heap st' ! a) = name (heap st ! a)
           \<and> fsize (heap st' ! a) = fsize (heap st ! a)
           \<and> (\<exists>new. sub (heap st' ! a) = sub (heap st ! a) @ new))"




section \<open>Example inputs\<close>

text \<open>
  The lines used in the examples, each with the object that \<^verbatim>\<open>json.loads\<close> returns for
  it; every other line is rejected by this decoder.
\<close>

definition example_loads :: "string \<Rightarrow> json option" where
  \<open>example_loads = map_of
     [(''{"path":"x/y","type":"d","size":0}'',
         JObj [(''path'', JStr ''x/y''), (''type'', JStr ''d''), (''size'', JInt 0)]),
      (''{"path":"x/y/z.txt","type":"f","size":5}'',
         JObj [(''path'', JStr ''x/y/z.txt''), (''type'', JStr ''f''), (''size'', JInt 5)]),
      (''{"path":"a","type":"d","size":0}'',
         JObj [(''path'', JStr ''a''), (''type'', JStr ''d''), (''size'', JInt 0)]),
      (''{"path":"a/b","type":"d","size":4096}'',
         JObj [(''path'', JStr ''a/b''), (''type'', JStr ''d''), (''size'', JInt 4096)]),
      (''{"path":"a/b/c","type":"d","size":0}'',
         JObj [(''path'', JStr ''a/b/c''), (''type'', JStr ''d''), (''size'', JInt 0)]),
      (''{"path":"/a","type":"d","size":0}'',
         JObj [(''path'', JStr ''/a''), (''type'', JStr ''d''), (''size'', JInt 0)]),
      (''{"path":"data1","type":"d","size":0}'',
         JObj [(''path'', JStr ''data1''), (''type'', JStr ''d''), (''size'', JInt 0)]),
      (''{"path":"data2","type":"d","size":0}'',
         JObj [(''path'', JStr ''data2''), (''type'', JStr ''d''), (''size'', JInt 0)]),
      (''{"path":"data1/f.txt","type":"f","size":1}'',
         JObj [(''path'', JStr ''data1/f.txt''), (''type'', JStr ''f''), (''size'', JInt 1)]),
      (''{"path":"data2/f.txt","type":"f","size":2}'',
         JObj [(''path'', JStr ''data2/f.txt''), (''type'', JStr ''f''), (''size'', JInt 2)])]\<close>



section \<open>Evaluation and sequencing lemmas\<close>

lemmas path_simps = basename_def dirname_def rfind_def rstrip_def from_filename_def
lemmas heap_simps = alloc_def add_entry_def init_def
lemmas build_simps = process_record_def process_new_dir_def process_new_dir_full_path_def
  process_new_dir_dataset_def iterate_path_parts_def

lemma process_lines_append:
  "process_lines loads st (xs @ ys) =
     (case process_lines loads st xs of Inl e \<Rightarrow> Inl e | Inr st' \<Rightarrow> process_lines loads st' ys)"
  by (induction xs arbitrary: st) (auto split: option.splits sum.splits)

section \<open>The serializer on forward stores\<close>

lemma forward_storeD:
  assumes "forward_store h" and "p < length h" and "c \<in> set (sub (h ! p))"
  shows "p < c \<and> c < length h"
proof -
  from assms(2) have "p \<in> set [0..<length h]" by simp
  with assms(1) have "\<forall>c\<in>set (sub (h ! p)). p < c \<and> c < length h"
    unfolding forward_store_def list_all_iff by blast
  with assms(3) show ?thesis by blast
qed

lemma those_map:
  "those (map g xs) = (if \<forall>x\<in>set xs. g x \<noteq> None then Some (map (the \<circ> g) xs) else None)"
  by (induction xs) (auto split: option.splits)

lemma entry_to_ncdu_Suc:
  "entry_to_ncdu (Suc n) h a =
     (if sub (h ! a) = []
      then Some (JObj [(''name'', JStr (name (h ! a))), (''dsize'', fsize (h ! a))])
      else if \<forall>c\<in>set (sub (h ! a)). entry_to_ncdu n h c \<noteq> None
      then Some (JArr (JObj [(''name'', JStr (name (h ! a)))]
                  # map (the \<circ> entry_to_ncdu n h) (sub (h ! a))))
      else None)"
  by (auto simp: those_map Let_def)


lemma fuel_mono:
  "entry_to_ncdu f h a = Some y \<Longrightarrow> entry_to_ncdu (Suc f) h a = Some y"
proof (induction f arbitrary: a y)
  case 0
  then show ?case by simp
next
  case (Suc f)
  note eq1 = entry_to_ncdu_Suc [of f h a] and eq2 = entry_to_ncdu_Suc [of "Suc f" h a]
  show ?case
  proof (cases "sub (h ! a) = []")
    case True
    with Suc.prems eq1 eq2 show ?thesis by (simp del: entry_to_ncdu.simps)
  next
    case False
    have all: "\<forall>c\<in>set (sub (h ! a)). entry_to_ncdu f h c \<noteq> None"
    proof (rule ccontr)
      assume "\<not> ?thesis"
      with eq1 False have "entry_to_ncdu (Suc f) h a = None" by (simp del: entry_to_ncdu.simps)
      with Suc.prems show False by simp
    qed
    have same: "entry_to_ncdu (Suc f) h c = entry_to_ncdu f h c" if "c \<in> set (sub (h ! a))" for c
    proof -
      from all that obtain z where "entry_to_ncdu f h c = Some z" by auto
      with Suc.IH [of c z] show ?thesis by simp
    qed
    have maps: "map (the \<circ> entry_to_ncdu (Suc f) h) (sub (h ! a))
                = map (the \<circ> entry_to_ncdu f h) (sub (h ! a))"
      using same by (simp del: entry_to_ncdu.simps)
    have all': "\<forall>c\<in>set (sub (h ! a)). entry_to_ncdu (Suc f) h c \<noteq> None"
      using same all by (simp del: entry_to_ncdu.simps)
    have "entry_to_ncdu (Suc (Suc f)) h a = entry_to_ncdu (Suc f) h a"
      unfolding eq1 eq2 using False all all' maps by (simp del: entry_to_ncdu.simps)
    with Suc.prems show ?thesis by (simp del: entry_to_ncdu.simps)
  qed
qed

lemma fuel_mono_le:
  assumes "entry_to_ncdu f h a = Some y" and "f \<le> f'"
  shows "entry_to_ncdu f' h a = Some y"
  using assms(2,1)
proof (induction rule: dec_induct)
  case base
  then show ?case .
next
  case (step n)
  then show ?case by (simp only: fuel_mono)
qed

lemma generate_ncdu_tree_eq:
  "generate_ncdu_tree limit st =
     (if \<forall>r\<in>set (root_objects st). entry_to_ncdu limit (heap st) r \<noteq> None
      then Some (JArr [JInt 1, JInt 1, JObj [],
              JArr (JObj [(''name'', JStr ''/'')]
                # map (the \<circ> entry_to_ncdu limit (heap st)) (root_objects st))])
      else None)"
  unfolding generate_ncdu_tree_def those_map by (simp del: entry_to_ncdu.simps)


text \<open>A chain of entries, each a child of the one before it, needs as many nested calls.\<close>

lemma chain_needs_depth:
  assumes "chain h (a # as)" and "entry_to_ncdu n h a \<noteq> None"
  shows "length (a # as) \<le> n"
  using assms
proof (induction n arbitrary: a as)
  case 0
  then show ?case by simp
next
  case (Suc n)
  show ?case
  proof (cases as)
    case Nil
    then show ?thesis by simp
  next
    case (Cons b r)
    with Suc.prems(1) have b: "b \<in> set (sub (h ! a))" and ch: "chain h (b # r)" by simp_all
    from b have ne: "sub (h ! a) \<noteq> []" by auto
    from Suc.prems(2) obtain y where "entry_to_ncdu (Suc n) h a = Some y" by auto
    with entry_to_ncdu_Suc [of n h a] ne
    have "\<forall>c\<in>set (sub (h ! a)). entry_to_ncdu n h c \<noteq> None"
      by (simp del: entry_to_ncdu.simps split: if_splits)
    with b have "entry_to_ncdu n h b \<noteq> None" by blast
    from Suc.IH [OF ch this] Cons show ?thesis by simp
  qed
qed

section \<open>The store invariant\<close>

lemma forward_store_iff:
  "forward_store h \<longleftrightarrow> (\<forall>p<length h. \<forall>c\<in>set (sub (h ! p)). p < c \<and> c < length h)"
  by (simp add: forward_store_def list_all_iff Ball_def)

lemma sum_list_map_update:
  fixes f :: "'a \<Rightarrow> nat"
  shows "i < length xs \<Longrightarrow>
    sum_list (map f (xs[i := y])) + f (xs ! i) = sum_list (map f xs) + f y"
proof (induction xs arbitrary: i)
  case Nil
  then show ?case by simp
next
  case (Cons x xs)
  then show ?case by (cases i) auto
qed

lemma wf_state_init: "wf_state (init fp)"
  by (simp add: wf_state_def init_def occ_def forward_store_def)

lemma wf_state_root:
  assumes wf: "wf_state st"
    and h: "heap st' = heap st @ [e]" and e: "sub e = []"
    and r: "root_objects st' = root_objects st @ [length (heap st)]"
    and c: "\<forall>k a. fs_cache st' k = Some a \<longrightarrow> a \<le> length (heap st)"
  shows "wf_state st'"
proof -
  from wf have fw: "forward_store (heap st)"
    and oc: "\<And>a. occ st a = (if a < length (heap st) then 1 else 0)"
    by (simp_all add: wf_state_def)
  have 1: "\<forall>k a. fs_cache st' k = Some a \<longrightarrow> a < length (heap st')"
    using c h by (simp add: less_Suc_eq_le)
  have 2: "forward_store (heap st')"
    unfolding forward_store_iff
  proof (intro allI impI ballI)
    fix p c assume p: "p < length (heap st')" and cin: "c \<in> set (sub (heap st' ! p))"
    show "p < c \<and> c < length (heap st')"
    proof (cases "p < length (heap st)")
      case True
      with cin h have "c \<in> set (sub (heap st ! p))" by (simp add: nth_append)
      from forward_storeD [OF fw True this] show ?thesis using h by simp
    next
      case False
      with p h have "p = length (heap st)" by simp
      with cin h e show ?thesis by simp
    qed
  qed
  have 3: "occ st' a = (if a < length (heap st') then 1 else 0)" for a
    using oc [of a] by (auto simp: occ_def h r e)
  from 1 2 3 show ?thesis by (simp add: wf_state_def)
qed

lemma wf_state_child:
  assumes wf: "wf_state st"
    and par: "par < length (heap st)" and e: "sub e = []"
    and h: "heap st' = (heap st @ [e])[par :=
              ((heap st @ [e]) ! par)\<lparr>sub := sub ((heap st @ [e]) ! par) @ [length (heap st)]\<rparr>]"
    and r: "root_objects st' = root_objects st"
    and c: "\<forall>k a. fs_cache st' k = Some a \<longrightarrow> a \<le> length (heap st)"
  shows "wf_state st'"
proof -
  let ?n = "length (heap st)"
  let ?P = "(heap st ! par)\<lparr>sub := sub (heap st ! par) @ [?n]\<rparr>"
  from wf have fw: "forward_store (heap st)"
    and oc: "\<And>a. occ st a = (if a < length (heap st) then 1 else 0)"
    by (simp_all add: wf_state_def)
  from h par have h': "heap st' = (heap st)[par := ?P] @ [e]"
    by (simp add: nth_append list_update_append)
  have len: "length (heap st') = Suc ?n" using h' by simp
  have 1: "\<forall>k a. fs_cache st' k = Some a \<longrightarrow> a < length (heap st')"
    using c len by (simp add: less_Suc_eq_le)
  have 2: "forward_store (heap st')"
    unfolding forward_store_iff
  proof (intro allI impI ballI)
    fix p c assume p: "p < length (heap st')" and cin: "c \<in> set (sub (heap st' ! p))"
    consider "p = ?n" | "p = par" | "p < ?n" "p \<noteq> par" using p len by force
    then show "p < c \<and> c < length (heap st')"
    proof cases
      case 1
      with cin h' e show ?thesis by (simp add: nth_append)
    next
      case 2
      with cin h' par have "c \<in> set (sub (heap st ! par)) \<or> c = ?n"
        by (auto simp: nth_append)
      then show ?thesis
        using forward_storeD [OF fw par, of c] par 2 len by auto
    next
      case 3
      with cin h' have "c \<in> set (sub (heap st ! p))" by (simp add: nth_append)
      from forward_storeD [OF fw 3(1) this] show ?thesis using len by simp
    qed
  qed
  have 3: "occ st' a = (if a < length (heap st') then 1 else 0)" for a
  proof -
    let ?f = "\<lambda>e. count_list (sub e) a"
    from sum_list_map_update [OF par, of ?f ?P]
    have "sum_list (map ?f ((heap st)[par := ?P])) + ?f (heap st ! par)
          = sum_list (map ?f (heap st)) + ?f ?P" .
    then have "sum_list (map ?f ((heap st)[par := ?P]))
          = sum_list (map ?f (heap st)) + (if a = ?n then 1 else 0)"
      by simp
    then have "occ st' a = occ st a + (if a = ?n then 1 else 0)"
      by (simp add: occ_def h' r e)
    with oc [of a] show ?thesis by (simp add: len)
  qed
  from 1 2 3 show ?thesis by (simp add: wf_state_def)
qed

section \<open>The prefixes of a path\<close>

lemma split_not_Nil: "split c s \<noteq> []"
  by (induction s) (auto simp: Let_def)

lemma join_Cons: "ps \<noteq> [] \<Longrightarrow> join sep (p # ps) = p @ sep @ join sep ps"
  by (cases ps) simp_all

lemma join_hd_tl: "r \<noteq> [] \<Longrightarrow> join sep ((x # hd r) # tl r) = x # join sep r"
proof (cases r)
  case Nil
  assume "r \<noteq> []"
  with Nil show ?thesis by simp
next
  case (Cons y ys)
  then show ?thesis by (cases ys) simp_all
qed

lemma join_split: "join [c] (split c s) = s"
proof (induction s)
  case Nil
  show ?case by simp
next
  case (Cons x xs)
  show ?case
  proof (cases "x = c")
    case True
    then show ?thesis using Cons by (simp add: join_Cons split_not_Nil)
  next
    case False
    then show ?thesis using Cons by (simp add: Let_def join_hd_tl split_not_Nil)
  qed
qed

lemma join_append:
  "xs \<noteq> [] \<Longrightarrow> ys \<noteq> [] \<Longrightarrow> join sep (xs @ ys) = join sep xs @ sep @ join sep ys"
proof (induction xs)
  case Nil
  then show ?case by simp
next
  case (Cons x xs)
  show ?case
  proof (cases "xs = []")
    case True
    with Cons.prems show ?thesis by (simp add: join_Cons)
  next
    case False
    with Cons show ?thesis by (simp add: join_Cons)
  qed
qed

lemma join_nonempty: "x \<noteq> [] \<Longrightarrow> join sep (x # xs) \<noteq> []"
  by (cases xs) simp_all

lemma hd_split_nonempty: "s \<noteq> [] \<Longrightarrow> hd s \<noteq> c \<Longrightarrow> hd (split c s) \<noteq> []"
  by (cases s) (simp_all add: Let_def)

lemma chained_prefixes:
  "chained (join sep (take k p))
     (map (\<lambda>i. (join sep (take i p), join sep (take (i + 1) p))) [k..<n])"
proof (induction "n - k" arbitrary: k)
  case 0
  then show ?case by simp
next
  case (Suc m)
  then have "k < n" by simp
  then have "[k..<n] = k # [Suc k..<n]" by (rule upt_conv_Cons)
  moreover from Suc have "m = n - Suc k" by simp
  ultimately show ?case using Suc.hyps(1) [of "Suc k"] by simp
qed

lemma iterate_path_parts_chained: "chained '''' (iterate_path_parts path)"
  using chained_prefixes [of "''/''" 0 "split (CHR ''/'') path" "length (split (CHR ''/'') path)"]
  by (simp add: iterate_path_parts_def Let_def)

lemma iterate_path_parts_mem:
  assumes "(a, b) \<in> set (iterate_path_parts path)"
  obtains i where "i < length (split (CHR ''/'') path)"
    and "a = join ''/'' (take i (split (CHR ''/'') path))"
    and "b = join ''/'' (take (Suc i) (split (CHR ''/'') path))"
  using assms by (auto simp: iterate_path_parts_def Let_def)

lemma join_take_Suc:
  assumes "i < length p" and "0 < i"
  shows "join sep (take (Suc i) p) = join sep (take i p) @ sep @ p ! i"
proof -
  from assms have "take i p \<noteq> []" by auto
  with assms(1) show ?thesis by (simp add: take_Suc_conv_app_nth join_append)
qed

lemma iterate_path_parts_loopfree:
  assumes "(a, b) \<in> set (iterate_path_parts path)" and "a = b"
  shows "a = ''''"
proof -
  from assms(1) obtain i where i: "i < length (split (CHR ''/'') path)"
    and a: "a = join ''/'' (take i (split (CHR ''/'') path))"
    and b: "b = join ''/'' (take (Suc i) (split (CHR ''/'') path))"
    by (rule iterate_path_parts_mem)
  show ?thesis
  proof (cases i)
    case 0
    with a show ?thesis by simp
  next
    case (Suc j)
    with join_take_Suc [OF i, of "''/''"] a b have "length b = length a + 1 + length (split (CHR ''/'') path ! i)"
      by simp
    with assms(2) show ?thesis by simp
  qed
qed

lemma iterate_path_parts_nonempty:
  assumes "path \<noteq> []" and "hd path \<noteq> CHR ''/''"
    and "(a, b) \<in> set (iterate_path_parts path)"
  shows "b \<noteq> ''''"
proof -
  let ?p = "split (CHR ''/'') path"
  from assms(3) obtain i where b: "b = join ''/'' (take (Suc i) ?p)"
    by (rule iterate_path_parts_mem)
  have "?p = hd ?p # tl ?p" by (simp add: split_not_Nil)
  then have "take (Suc i) ?p = hd ?p # take i (tl ?p)" by (metis take_Suc_Cons)
  with b hd_split_nonempty [OF assms(1,2)] show ?thesis by (simp add: join_nonempty)
qed

lemma iterate_path_parts_last:
  "\<exists>front q. iterate_path_parts path = front @ [(q, path)]
     \<and> (\<forall>(a, b)\<in>set front. b \<noteq> path)"
proof -
  let ?p = "split (CHR ''/'') path"
  let ?f = "\<lambda>i. (join ''/'' (take i ?p), join ''/'' (take (i + 1) ?p))"
  obtain n where n: "length ?p = Suc n" using split_not_Nil [of "CHR ''/''" path] by (cases ?p) auto
  have "iterate_path_parts path = map ?f [0..<n] @ [?f n]"
    by (simp add: iterate_path_parts_def Let_def n)
  moreover have "?f n = (join ''/'' (take n ?p), path)"
    using join_split [of "CHR ''/''" path] n by simp
  moreover have "b \<noteq> path" if "(a, b) \<in> set (map ?f [0..<n])" for a b
  proof -
    from that obtain i where i: "i < n" and b: "b = join ''/'' (take (Suc i) ?p)" by auto
    have "?p = take (Suc i) ?p @ drop (Suc i) ?p" by simp
    moreover from i n have "take (Suc i) ?p \<noteq> []" "drop (Suc i) ?p \<noteq> []" by auto
    ultimately have "join ''/'' ?p = join ''/'' (take (Suc i) ?p) @ ''/'' @ join ''/'' (drop (Suc i) ?p)"
      by (metis join_append)
    then have "path = b @ ''/'' @ join ''/'' (drop (Suc i) ?p)"
      unfolding join_split b .
    then have "length path = length (b @ ''/'' @ join ''/'' (drop (Suc i) ?p))"
      by (rule arg_cong)
    then show ?thesis by auto
  qed
  ultimately show ?thesis by (intro exI [of _ "map ?f [0..<n]"] exI [of _ "join ''/'' (take n ?p)"]) auto
qed

section \<open>The loop of ancestor synthesis\<close>

lemma for_parts_Cons:
  "for_parts st (x # rest) =
     (case for_parts st [x] of Inl e \<Rightarrow> Inl e | Inr st' \<Rightarrow> for_parts st' rest)"
  by (cases x) (simp add: alloc_def Let_def split: option.splits)

lemma for_parts_append:
  "for_parts st (xs @ ys) =
     (case for_parts st xs of Inl e \<Rightarrow> Inl e | Inr st' \<Rightarrow> for_parts st' ys)"
proof (induction xs arbitrary: st)
  case Nil
  show ?case by simp
next
  case (Cons x xs)
  show ?case
    by (simp only: append_Cons for_parts_Cons [of st x "xs @ ys"] for_parts_Cons [of st x xs] Cons.IH
        split: sum.splits) (simp split: sum.splits)
qed

lemma step_known: "fs_cache st b = Some a \<Longrightarrow> for_parts st [(q, b)] = Inr st"
  by simp

lemma step_root:
  "fs_cache st b = None \<Longrightarrow>
   for_parts st [('''', b)] =
     Inr (st\<lparr>heap := heap st @ [from_filename b (JInt 0)],
             fs_cache := (fs_cache st)(b \<mapsto> length (heap st)),
             root_objects := root_objects st @ [length (heap st)]\<rparr>)"
  by (simp add: alloc_def)

lemma step_child:
  "fs_cache st b = None \<Longrightarrow> q \<noteq> '''' \<Longrightarrow> q \<noteq> b \<Longrightarrow> fs_cache st q = Some p \<Longrightarrow>
   for_parts st [(q, b)] =
     Inr (add_entry p (length (heap st))
            (st\<lparr>heap := heap st @ [from_filename b (JInt 0)],
                fs_cache := (fs_cache st)(b \<mapsto> length (heap st))\<rparr>))"
  by (simp add: alloc_def)

lemma step_fail:
  "fs_cache st b = None \<Longrightarrow> q \<noteq> '''' \<Longrightarrow> q \<noteq> b \<Longrightarrow> fs_cache st q = None \<Longrightarrow>
   for_parts st [(q, b)] = Inl (KeyError q)"
  by (simp add: alloc_def)

lemma step_self:
  "fs_cache st b = None \<Longrightarrow> b \<noteq> '''' \<Longrightarrow>
   for_parts st [(b, b)] =
     Inr (add_entry (length (heap st)) (length (heap st))
            (st\<lparr>heap := heap st @ [from_filename b (JInt 0)],
                fs_cache := (fs_cache st)(b \<mapsto> length (heap st))\<rparr>))"
  by (simp add: alloc_def)

text \<open>What one step does to the index and to the size of the store.\<close>

lemma step_effect:
  assumes "for_parts st [(q, b)] = Inr st'"
  shows "full_path st' = full_path st"
    and "fs_cache st' = (case fs_cache st b of Some a \<Rightarrow> fs_cache st
                          | None \<Rightarrow> (fs_cache st)(b \<mapsto> length (heap st)))"
    and "length (heap st') = (case fs_cache st b of Some a \<Rightarrow> length (heap st)
                          | None \<Rightarrow> Suc (length (heap st)))"
    and "fs_cache st b \<noteq> None \<Longrightarrow> st' = st"
  using assms
  by (auto simp: alloc_def add_entry_def Let_def split: option.splits if_splits)

lemma step_total:
  assumes "q = '''' \<or> fs_cache st q \<noteq> None"
  shows "\<exists>st'. for_parts st [(q, b)] = Inr st'"
  using assms by (auto simp: alloc_def Let_def split: option.splits)

lemma step_wf:
  assumes wf: "wf_state st" and loopfree: "q = b \<longrightarrow> q = ''''"
    and step: "for_parts st [(q, b)] = Inr st'"
  shows "wf_state st'"
proof (cases "fs_cache st b")
  case (Some a)
  with step wf show ?thesis by simp
next
  case None
  from wf have valid: "\<And>k a. fs_cache st k = Some a \<Longrightarrow> a < length (heap st)"
    by (simp add: wf_state_def)
  show ?thesis
  proof (cases "q = ''''")
    case True
    with step step_root [OF None]
    have st': "st' = st\<lparr>heap := heap st @ [from_filename b (JInt 0)],
             fs_cache := (fs_cache st)(b \<mapsto> length (heap st)),
             root_objects := root_objects st @ [length (heap st)]\<rparr>"
      by (simp del: for_parts.simps)
    show ?thesis
      by (rule wf_state_root [OF wf, of _ "from_filename b (JInt 0)"])
         (auto simp: st' from_filename_def dest: valid less_imp_le)
  next
    case False
    with loopfree have qb: "q \<noteq> b" by blast
    from step step_fail [OF None False qb] obtain p where p: "fs_cache st q = Some p"
      by (cases "fs_cache st q") (simp_all del: for_parts.simps)
    from step step_child [OF None False qb p]
    have st': "st' = add_entry p (length (heap st))
            (st\<lparr>heap := heap st @ [from_filename b (JInt 0)],
                fs_cache := (fs_cache st)(b \<mapsto> length (heap st))\<rparr>)"
      by (simp del: for_parts.simps)
    show ?thesis
      by (rule wf_state_child [OF wf valid [OF p], of "from_filename b (JInt 0)"])
         (auto simp: st' add_entry_def from_filename_def dest: valid less_imp_le)
  qed
qed

text \<open>Lifting a property of the steps to the loop.\<close>

lemma for_parts_invariant:
  assumes "for_parts st ps = Inr st'" and "P st"
    and "\<And>s q b s'. P s \<Longrightarrow> (q, b) \<in> set ps \<Longrightarrow> for_parts s [(q, b)] = Inr s' \<Longrightarrow> P s'"
  shows "P st'"
  using assms
proof (induction ps arbitrary: st)
  case Nil
  then show ?case by simp
next
  case (Cons x ps)
  obtain q b where x: "x = (q, b)" by (cases x)
  from Cons.prems(1) obtain s where s: "for_parts st [x] = Inr s" and rest: "for_parts s ps = Inr st'"
    by (subst (asm) for_parts_Cons) (auto split: sum.splits)
  from s have s': "for_parts st [(q, b)] = Inr s" unfolding x .
  have "P s" by (rule Cons.prems(3) [OF Cons.prems(2) _ s']) (simp add: x)
  show ?case
  proof (rule Cons.IH [OF rest \<open>P s\<close>])
    fix s0 q0 b0 s1
    assume 0: "P s0" and 1: "(q0, b0) \<in> set ps" and 2: "for_parts s0 [(q0, b0)] = Inr s1"
    from 1 have "(q0, b0) \<in> set (x # ps)" by simp
    from Cons.prems(3) [OF 0 this 2] show "P s1" .
  qed
qed

lemma for_parts_wf:
  assumes "for_parts st ps = Inr st'" and "wf_state st"
    and "\<forall>(q, b)\<in>set ps. q = b \<longrightarrow> q = ''''"
  shows "wf_state st'"
proof (rule for_parts_invariant [OF assms(1), of wf_state, OF assms(2)])
  fix s q b s'
  assume wf: "wf_state s" and mem: "(q, b) \<in> set ps" and step: "for_parts s [(q, b)] = Inr s'"
  from assms(3) mem have "q = b \<longrightarrow> q = ''''" by blast
  from step_wf [OF wf this step] show "wf_state s'" .
qed

lemma for_parts_full_path:
  assumes "for_parts st ps = Inr st'"
  shows "full_path st' = full_path st"
proof (rule for_parts_invariant [OF assms, of "\<lambda>s. full_path s = full_path st"])
  show "full_path st = full_path st" ..
next
  fix s q b s'
  assume "full_path s = full_path st" and "for_parts s [(q, b)] = Inr s'"
  with step_effect(1) [of s q b s'] show "full_path s' = full_path st" by simp
qed

lemma for_parts_keeps:
  assumes "for_parts st ps = Inr st'" and "fs_cache st k = Some a"
  shows "fs_cache st' k = Some a"
proof (rule for_parts_invariant [OF assms(1), of "\<lambda>s. fs_cache s k = Some a"])
  show "fs_cache st k = Some a" by (rule assms(2))
next
  fix s q b s'
  assume k: "fs_cache s k = Some a" and "for_parts s [(q, b)] = Inr s'"
  from step_effect(2) [OF this(2)] k show "fs_cache s' k = Some a"
    by (auto split: option.splits)
qed

lemma for_parts_total:
  assumes "chained q ps" and "q = '''' \<or> fs_cache st q \<noteq> None"
  shows "\<exists>st'. for_parts st ps = Inr st'"
  using assms
proof (induction ps arbitrary: st q)
  case Nil
  show ?case by simp
next
  case (Cons x ps)
  obtain a b where x: "x = (a, b)" by (cases x)
  with Cons.prems(1) have a: "a = q" and ch: "chained b ps" by simp_all
  from step_total [OF Cons.prems(2), of b] obtain s where s: "for_parts st [(q, b)] = Inr s"
    by blast
  have "fs_cache s b \<noteq> None"
    using step_effect(2) [OF s] by (auto split: option.splits)
  with Cons.IH [OF ch, of s] obtain st' where "for_parts s ps = Inr st'" by blast
  with s x a show ?case by (subst for_parts_Cons) simp
qed

lemma for_parts_count:
  assumes "for_parts st ps = Inr st'"
  shows "dom (fs_cache st') = dom (fs_cache st) \<union> snd ` set ps
       \<and> length (heap st') = length (heap st) + card (snd ` set ps - dom (fs_cache st))"
  using assms
proof (induction ps arbitrary: st)
  case Nil
  then show ?case by simp
next
  case (Cons x ps)
  obtain q b where x: "x = (q, b)" by (cases x)
  from Cons.prems obtain s where s: "for_parts st [(q, b)] = Inr s" and rest: "for_parts s ps = Inr st'"
    unfolding x by (subst (asm) for_parts_Cons) (auto split: sum.splits)
  note IH = Cons.IH [OF rest]
  show ?case
  proof (cases "fs_cache st b")
    case (Some a)
    with step_effect(4) [OF s] have "s = st" by simp
    moreover from Some have "insert b (snd ` set ps) - dom (fs_cache st) = snd ` set ps - dom (fs_cache st)"
      by auto
    ultimately show ?thesis using IH Some by (auto simp: x)
  next
    case None
    with step_effect(2,3) [OF s]
    have c: "fs_cache s = (fs_cache st)(b \<mapsto> length (heap st))"
      and l: "length (heap s) = Suc (length (heap st))" by simp_all
    from c have d: "dom (fs_cache s) = insert b (dom (fs_cache st))" by simp
    note IH' = IH [unfolded d l]
    have fin: "finite (snd ` set ps - insert b (dom (fs_cache st)))" by simp
    have "insert b (snd ` set ps) - dom (fs_cache st)
          = insert b (snd ` set ps - insert b (dom (fs_cache st)))"
      using None by auto
    then have "card (insert b (snd ` set ps) - dom (fs_cache st))
          = Suc (card (snd ` set ps - insert b (dom (fs_cache st))))"
      using fin by simp
    with IH' show ?thesis by (auto simp: x)
  qed
qed

lemma for_parts_idem:
  assumes "\<forall>(q, b)\<in>set ps. fs_cache st b \<noteq> None"
  shows "for_parts st ps = Inr st"
  using assms by (induction ps) auto

section \<open>The invariant along a run\<close>

lemma process_record_str:
  assumes "getitem rec ''path'' = Inr (JStr p)" and "getitem rec ''type'' = Inr ty"
    and "getitem rec ''size'' = Inr sz" and "p \<noteq> ''.''"
  shows "process_record st rec =
    (if ty = JStr ''d'' then
       (case fs_cache st (dirname p) of
          Some par \<Rightarrow>
            Inr ((add_entry par (length (heap st))
                    (st\<lparr>heap := heap st @ [from_filename p sz]\<rparr>))
                 \<lparr>fs_cache := (fs_cache st)(p \<mapsto> length (heap st))\<rparr>)
        | None \<Rightarrow> process_new_dir st p)
     else if dirname p = '''' then
       Inr (st\<lparr>heap := heap st @ [from_filename p sz],
               fs_cache := (fs_cache st)(p \<mapsto> length (heap st)),
               root_objects := root_objects st @ [length (heap st)]\<rparr>)
     else
       (case fs_cache st (dirname p) of
          None \<Rightarrow> Inl (KeyError (dirname p))
        | Some par \<Rightarrow>
            Inr (add_entry par (length (heap st))
                   (st\<lparr>heap := heap st @ [from_filename p sz]\<rparr>))))"
  using assms
  by (simp add: process_record_def alloc_def add_entry_def Let_def split: option.splits)

lemma process_record_Inr:
  assumes "process_record st rec = Inr st'"
  obtains (skip) "st' = st"
  | (rec) p ty sz where "getitem rec ''path'' = Inr (JStr p)" and "getitem rec ''type'' = Inr ty"
      and "getitem rec ''size'' = Inr sz" and "p \<noteq> ''.''"
proof -
  from assms obtain path ty where path: "getitem rec ''path'' = Inr path"
    and ty: "getitem rec ''type'' = Inr ty"
    by (auto simp: process_record_def split: sum.splits)
  show thesis
  proof (cases "path = JStr ''.''")
    case True
    with assms path ty have "st' = st" by (simp add: process_record_def)
    then show thesis by (rule skip)
  next
    case False
    with assms path ty obtain sz where sz: "getitem rec ''size'' = Inr sz"
      by (auto simp: process_record_def Let_def split: sum.splits)
    with assms path ty False obtain p where "path = JStr p"
      by (cases path) (auto simp: process_record_def Let_def)
    with path ty sz False show thesis by (auto intro: rec)
  qed
qed

lemma process_new_dir_wf:
  assumes "wf_state st" and "process_new_dir st p = Inr st'"
  shows "wf_state st'"
proof (cases "full_path st")
  case True
  with assms(2) have run: "for_parts st (iterate_path_parts p) = Inr st'"
    by (simp add: process_new_dir_def process_new_dir_full_path_def)
  have "\<forall>(q, b)\<in>set (iterate_path_parts p). q = b \<longrightarrow> q = ''''"
    using iterate_path_parts_loopfree by blast
  with run assms(1) show ?thesis by (rule for_parts_wf)
next
  case False
  with assms(2) have st': "st' = st\<lparr>heap := heap st @ [from_filename p (JInt 0)],
               fs_cache := (fs_cache st)(p \<mapsto> length (heap st)),
               root_objects := root_objects st @ [length (heap st)]\<rparr>"
    by (simp add: process_new_dir_def process_new_dir_dataset_def alloc_def)
  from assms(1) have valid: "\<And>k a. fs_cache st k = Some a \<Longrightarrow> a < length (heap st)"
    by (simp add: wf_state_def)
  show ?thesis
    by (rule wf_state_root [OF assms(1), of _ "from_filename p (JInt 0)"])
       (auto simp: st' from_filename_def dest: valid less_imp_le)
qed

lemma process_record_wf:
  assumes wf: "wf_state st" and step: "process_record st rec = Inr st'"
  shows "wf_state st'"
  using step
proof (cases rule: process_record_Inr)
  case skip
  with wf show ?thesis by simp
next
  case (rec p ty sz)
  note eq = process_record_str [OF rec, of st]
  from wf have valid: "\<And>k a. fs_cache st k = Some a \<Longrightarrow> a < length (heap st)"
    by (simp add: wf_state_def)
  show ?thesis
  proof (cases "ty = JStr ''d''")
    case True
    show ?thesis
    proof (cases "fs_cache st (dirname p)")
      case None
      with eq True step have "process_new_dir st p = Inr st'" by simp
      with wf show ?thesis by (rule process_new_dir_wf)
    next
      case (Some par)
      with eq True step have st': "st' = (add_entry par (length (heap st))
                    (st\<lparr>heap := heap st @ [from_filename p sz]\<rparr>))
                 \<lparr>fs_cache := (fs_cache st)(p \<mapsto> length (heap st))\<rparr>" by simp
      show ?thesis
        by (rule wf_state_child [OF wf valid [OF Some], of "from_filename p sz"])
           (auto simp: st' add_entry_def from_filename_def dest: valid less_imp_le)
    qed
  next
    case False
    show ?thesis
    proof (cases "dirname p = ''''")
      case True
      with eq False step have st': "st' = st\<lparr>heap := heap st @ [from_filename p sz],
               fs_cache := (fs_cache st)(p \<mapsto> length (heap st)),
               root_objects := root_objects st @ [length (heap st)]\<rparr>" by simp
      show ?thesis
        by (rule wf_state_root [OF wf, of _ "from_filename p sz"])
           (auto simp: st' from_filename_def dest: valid less_imp_le)
    next
      case nonroot: False
      with eq False step obtain par where par: "fs_cache st (dirname p) = Some par"
        by (cases "fs_cache st (dirname p)") simp_all
      with eq False nonroot step have st': "st' = add_entry par (length (heap st))
                   (st\<lparr>heap := heap st @ [from_filename p sz]\<rparr>)" by simp
      show ?thesis
        by (rule wf_state_child [OF wf valid [OF par], of "from_filename p sz"])
           (auto simp: st' add_entry_def from_filename_def dest: valid less_imp_le)
    qed
  qed
qed

lemma process_new_dir_full_path_flag:
  "process_new_dir st p = Inr st' \<Longrightarrow> full_path st' = full_path st"
  by (auto simp: process_new_dir_def process_new_dir_full_path_def process_new_dir_dataset_def
      alloc_def for_parts_full_path split: if_splits)

lemma process_record_flag:
  assumes "process_record st rec = Inr st'"
  shows "full_path st' = full_path st"
  using assms
proof (cases rule: process_record_Inr)
  case skip
  then show ?thesis by simp
next
  case (rec p ty sz)
  from assms show ?thesis
    unfolding process_record_str [OF rec, of st]
    by (auto simp: add_entry_def process_new_dir_full_path_flag split: if_splits option.splits)
qed

lemma process_lines_invariant:
  assumes "process_lines loads st lines = Inr st'" and "P st"
    and "\<And>s l rec s'. P s \<Longrightarrow> l \<in> set lines \<Longrightarrow> loads l = Some rec \<Longrightarrow>
           process_record s rec = Inr s' \<Longrightarrow> P s'"
  shows "P st'"
  using assms
proof (induction lines arbitrary: st)
  case Nil
  then show ?case by simp
next
  case (Cons l lines)
  from Cons.prems(1) obtain rec s where rec: "loads l = Some rec"
    and s: "process_record st rec = Inr s" and rest: "process_lines loads s lines = Inr st'"
    by (auto split: option.splits sum.splits)
  have "P s" by (rule Cons.prems(3) [OF Cons.prems(2) _ rec s]) simp
  show ?case
  proof (rule Cons.IH [OF rest \<open>P s\<close>])
    fix s0 l0 rec0 s1
    assume 0: "P s0" and 1: "l0 \<in> set lines" and 2: "loads l0 = Some rec0"
      and 3: "process_record s0 rec0 = Inr s1"
    from 1 have "l0 \<in> set (l # lines)" by simp
    from Cons.prems(3) [OF 0 this 2 3] show "P s1" .
  qed
qed

lemma process_lines_wf:
  assumes "process_lines loads st lines = Inr st'" and "wf_state st"
  shows "wf_state st'"
  by (rule process_lines_invariant [OF assms(1), of wf_state, OF assms(2)])
     (rule process_record_wf)

lemma process_lines_flag:
  assumes "process_lines loads st lines = Inr st'"
  shows "full_path st' = full_path st"
proof (rule process_lines_invariant [OF assms, of "\<lambda>s. full_path s = full_path st"])
  show "full_path st = full_path st" ..
next
  fix s l rec s'
  assume "full_path s = full_path st" and "process_record s rec = Inr s'"
  with process_record_flag [of s rec s'] show "full_path s' = full_path st" by simp
qed

section \<open>Consequences of the store invariant\<close>

lemma sum_list_one:
  fixes f :: "'a \<Rightarrow> nat"
  assumes "sum_list (map f xs) = 1"
  shows "\<exists>i<length xs. f (xs ! i) = 1 \<and> (\<forall>j<length xs. j \<noteq> i \<longrightarrow> f (xs ! j) = 0)"
  using assms
proof (induction xs)
  case Nil
  then show ?case by simp
next
  case (Cons x xs)
  show ?case
  proof (cases "f x = 0")
    case True
    with Cons.prems have "sum_list (map f xs) = 1" by simp
    from Cons.IH [OF this] obtain i where i: "i < length xs" "f (xs ! i) = 1"
      "\<forall>j<length xs. j \<noteq> i \<longrightarrow> f (xs ! j) = 0" by blast
    have "\<forall>j<length (x # xs). j \<noteq> Suc i \<longrightarrow> f ((x # xs) ! j) = 0"
    proof (intro allI impI)
      fix j assume "j < length (x # xs)" "j \<noteq> Suc i"
      with i(3) True show "f ((x # xs) ! j) = 0" by (cases j) auto
    qed
    with i(1,2) show ?thesis by (intro exI [of _ "Suc i"]) simp
  next
    case False
    from Cons.prems have "f x + sum_list (map f xs) = 1" by simp
    with False have fx: "f x = 1" and rest: "sum_list (map f xs) = 0" by arith+
    from rest have zero: "\<forall>y\<in>set xs. f y = 0" by simp
    have "\<forall>j<length (x # xs). j \<noteq> 0 \<longrightarrow> f ((x # xs) ! j) = 0"
    proof (intro allI impI)
      fix j assume "j < length (x # xs)" "j \<noteq> 0"
      with zero show "f ((x # xs) ! j) = 0" by (cases j) auto
    qed
    with fx show ?thesis by (intro exI [of _ 0]) simp
  qed
qed

lemma wf_state_child_of:
  assumes wf: "wf_state st" and a: "a < length (heap st)" and nr: "a \<notin> set (root_objects st)"
  shows "\<exists>p<length (heap st). p \<noteq> a \<and> count_list (sub (heap st ! p)) a = 1
           \<and> (\<forall>q<length (heap st). q \<noteq> p \<longrightarrow> a \<notin> set (sub (heap st ! q)))"
proof -
  let ?f = "\<lambda>e. count_list (sub e) a"
  from wf a have "occ st a = 1" by (simp add: wf_state_def)
  with nr have "sum_list (map ?f (heap st)) = 1" by (simp add: occ_def)
  from sum_list_one [OF this] obtain p where p: "p < length (heap st)"
    and one: "count_list (sub (heap st ! p)) a = 1"
    and others: "\<forall>q<length (heap st). q \<noteq> p \<longrightarrow> count_list (sub (heap st ! q)) a = 0"
    by blast
  from one have "a \<in> set (sub (heap st ! p))" by (metis count_list_0_iff zero_neq_one)
  moreover from wf have "forward_store (heap st)" by (simp add: wf_state_def)
  ultimately have "p < a" using forward_storeD p by blast
  with p one others show ?thesis by (auto simp: count_list_0_iff)
qed

lemma wf_state_root_of:
  assumes wf: "wf_state st" and r: "a \<in> set (root_objects st)"
  shows "a < length (heap st) \<and> count_list (root_objects st) a = 1
           \<and> (\<forall>q<length (heap st). a \<notin> set (sub (heap st ! q)))"
proof -
  let ?f = "\<lambda>e. count_list (sub e) a"
  from r have "count_list (root_objects st) a \<noteq> 0" by (simp add: count_list_0_iff)
  then have pos: "0 < count_list (root_objects st) a" by simp
  from wf have "occ st a = (if a < length (heap st) then 1 else 0)" by (simp add: wf_state_def)
  with pos have a: "a < length (heap st)" and "occ st a = 1"
    by (auto simp: occ_def split: if_splits)
  then have "count_list (root_objects st) a + sum_list (map ?f (heap st)) = 1"
    by (simp add: occ_def)
  with pos have one: "count_list (root_objects st) a = 1" and "sum_list (map ?f (heap st)) = 0"
    by arith+
  then have "\<forall>e\<in>set (heap st). count_list (sub e) a = 0" by simp
  then have "\<forall>q<length (heap st). a \<notin> set (sub (heap st ! q))"
    by (simp add: count_list_0_iff)
  with a one show ?thesis by simp
qed

lemma forward_store_acyclic:
  assumes "forward_store h"
  shows "acyclic {(p, c). p < length h \<and> c \<in> set (sub (h ! p))}"
proof (rule acyclic_subset)
  show "acyclic less_than" by (rule wf_acyclic) (rule wf_less_than)
  show "{(p, c). p < length h \<and> c \<in> set (sub (h ! p))} \<subseteq> less_than"
  proof (rule subsetI)
    fix x assume "x \<in> {(p, c). p < length h \<and> c \<in> set (sub (h ! p))}"
    then obtain p c where x: "x = (p, c)" and 1: "p < length h" and 2: "c \<in> set (sub (h ! p))"
      by auto
    from forward_storeD [OF assms 1 2] x show "x \<in> less_than" by simp
  qed
qed


section \<open>Example runs\<close>

lemmas run_simps = example_loads_def path_simps heap_simps build_simps Let_def upt_rec

lemma run_xy_xyz:
  \<open>process_lines example_loads (init True)
     [''{"path":"x/y","type":"d","size":0}'', ''{"path":"x/y/z.txt","type":"f","size":5}''] =
   Inr \<lparr>heap = [\<lparr>name = ''x'', fsize = JInt 0, sub = [1]\<rparr>,
                \<lparr>name = ''y'', fsize = JInt 0, sub = [2]\<rparr>,
                \<lparr>name = ''z.txt'', fsize = JInt 5, sub = []\<rparr>],
        root_objects = [0],
        fs_cache = [''x'' \<mapsto> 0, ''x/y'' \<mapsto> 1],
        full_path = True\<rparr>\<close>
  by (simp add: run_simps)

lemma run_a:
  \<open>process_lines example_loads (init fp) [''{"path":"a","type":"d","size":0}''] =
   Inr \<lparr>heap = [\<lparr>name = ''a'', fsize = JInt 0, sub = []\<rparr>],
        root_objects = [0],
        fs_cache = [''a'' \<mapsto> 0],
        full_path = fp\<rparr>\<close>
  by (cases fp) (simp_all add: run_simps)


lemma process_new_dir_full_path_total:
  "\<exists>st'. process_new_dir_full_path st p = Inr st'"
  unfolding process_new_dir_full_path_def
  by (rule for_parts_total [OF iterate_path_parts_chained]) simp

section \<open>The entry of a synthesized path, and the empty key\<close>

lemma synthesized_entry:
  assumes wf: "wf_state st" and new: "fs_cache st p = None"
    and run: "process_new_dir_full_path st p = Inr st'"
  shows "\<exists>a. fs_cache st' p = Some a \<and> length (heap st) \<le> a \<and> a < length (heap st')
           \<and> heap st' ! a = \<lparr>name = basename p, fsize = JInt 0, sub = []\<rparr>"
proof -
  from iterate_path_parts_last [of p] obtain front q
    where parts: "iterate_path_parts p = front @ [(q, p)]"
      and front: "\<forall>(a, b)\<in>set front. b \<noteq> p" by blast
  from run obtain s where s: "for_parts st front = Inr s" and last: "for_parts s [(q, p)] = Inr st'"
    unfolding process_new_dir_full_path_def parts for_parts_append
    by (auto split: sum.splits)
  have loopfree: "\<forall>(a, b)\<in>set (iterate_path_parts p). a = b \<longrightarrow> a = ''''"
    using iterate_path_parts_loopfree by blast
  then have "\<forall>(a, b)\<in>set front. a = b \<longrightarrow> a = ''''" by (simp add: parts)
  with s wf have wfs: "wf_state s" by (rule for_parts_wf)
  then have valid: "\<And>k a. fs_cache s k = Some a \<Longrightarrow> a < length (heap s)"
    by (simp add: wf_state_def)
  note cnt = for_parts_count [OF s]
  from front have "p \<notin> snd ` set front" by force
  with cnt new have none: "fs_cache s p = None" by blast
  from cnt have le: "length (heap st) \<le> length (heap s)" by simp
  let ?n = "length (heap s)"
  let ?e = "from_filename p (JInt 0)"
  have "fs_cache st' p = Some ?n \<and> ?n < length (heap st') \<and> heap st' ! ?n = ?e"
  proof (cases "q = ''''")
    case True
    with last step_root [OF none] have "st' = s\<lparr>heap := heap s @ [?e],
             fs_cache := (fs_cache s)(p \<mapsto> ?n),
             root_objects := root_objects s @ [?n]\<rparr>"
      by (simp del: for_parts.simps)
    then show ?thesis by simp
  next
    case False
    with loopfree have qp: "q \<noteq> p" by (auto simp: parts)
    from last step_fail [OF none False qp] obtain par where par: "fs_cache s q = Some par"
      by (cases "fs_cache s q") (simp_all del: for_parts.simps)
    from last step_child [OF none False qp par]
    have st': "st' = add_entry par ?n
            (s\<lparr>heap := heap s @ [?e], fs_cache := (fs_cache s)(p \<mapsto> ?n)\<rparr>)"
      by (simp del: for_parts.simps)
    from valid [OF par] have "par \<noteq> ?n" by simp
    then show ?thesis by (simp add: st' add_entry_def)
  qed
  with le show ?thesis by (auto simp: from_filename_def)
qed

lemma process_new_dir_keeps_empty_key:
  assumes none: "fs_cache st '''' = None" and run: "process_new_dir st p = Inr st'"
    and p: "p \<noteq> ''''" "full_path st \<longrightarrow> hd p \<noteq> CHR ''/''"
  shows "fs_cache st' '''' = None"
proof (cases "full_path st")
  case True
  with run have fp: "for_parts st (iterate_path_parts p) = Inr st'"
    by (simp add: process_new_dir_def process_new_dir_full_path_def)
  from True p have "hd p \<noteq> CHR ''/''" by simp
  with p(1) have "'''' \<notin> snd ` set (iterate_path_parts p)"
    using iterate_path_parts_nonempty [of p] by force
  with for_parts_count [OF fp] none have "'''' \<notin> dom (fs_cache st')" by blast
  then show ?thesis by auto
next
  case False
  with run none p(1) show ?thesis
    by (auto simp: process_new_dir_def process_new_dir_dataset_def alloc_def)
qed

lemma process_record_keeps_empty_key:
  assumes none: "fs_cache st '''' = None" and step: "process_record st rec = Inr st'"
    and paths: "\<forall>p. getitem rec ''path'' = Inr (JStr p) \<longrightarrow>
                  p \<noteq> '''' \<and> (full_path st \<longrightarrow> hd p \<noteq> CHR ''/'')"
  shows "fs_cache st' '''' = None"
  using step
proof (cases rule: process_record_Inr)
  case skip
  with none show ?thesis by simp
next
  case (rec p ty sz)
  with paths have p: "p \<noteq> ''''" "full_path st \<longrightarrow> hd p \<noteq> CHR ''/''" by simp_all
  note eq = process_record_str [OF rec, of st]
  show ?thesis
  proof (cases "ty = JStr ''d'' \<and> fs_cache st (dirname p) = None")
    case True
    with eq step have "process_new_dir st p = Inr st'" by simp
    with none show ?thesis using p by (rule process_new_dir_keeps_empty_key)
  next
    case False
    with step none p(1) show ?thesis
      unfolding eq by (auto simp: add_entry_def split: if_splits option.splits)
  qed
qed


section \<open>Growth and creation order along a run\<close>

lemma grows_refl: "grows st st"
  by (simp add: grows_def)

lemma grows_trans:
  assumes "grows s1 s2" and "grows s2 s3"
  shows "grows s1 s3"
proof -
  from assms have len: "length (heap s1) \<le> length (heap s2)" "length (heap s2) \<le> length (heap s3)"
    by (simp_all add: grows_def)
  from assms obtain r1 r2 where "root_objects s2 = root_objects s1 @ r1"
    "root_objects s3 = root_objects s2 @ r2" by (auto simp: grows_def)
  then have roots: "\<exists>new. root_objects s3 = root_objects s1 @ new" by simp
  have ent: "name (heap s3 ! a) = name (heap s1 ! a) \<and> fsize (heap s3 ! a) = fsize (heap s1 ! a)
      \<and> (\<exists>new. sub (heap s3 ! a) = sub (heap s1 ! a) @ new)" if a: "a < length (heap s1)" for a
  proof -
    from a len have a2: "a < length (heap s2)" by simp
    from assms(1) a obtain n1 where 1: "name (heap s2 ! a) = name (heap s1 ! a)"
      "fsize (heap s2 ! a) = fsize (heap s1 ! a)" "sub (heap s2 ! a) = sub (heap s1 ! a) @ n1"
      unfolding grows_def by blast
    from assms(2) a2 obtain n2 where 2: "name (heap s3 ! a) = name (heap s2 ! a)"
      "fsize (heap s3 ! a) = fsize (heap s2 ! a)" "sub (heap s3 ! a) = sub (heap s2 ! a) @ n2"
      unfolding grows_def by blast
    from 1 2 show ?thesis by simp
  qed
  from len roots ent show ?thesis unfolding grows_def by auto
qed

lemma grows_root_step:
  assumes "heap st' = heap st @ [e]" and "root_objects st' = root_objects st @ [n]"
  shows "grows st st'"
  using assms by (simp add: grows_def nth_append)

lemma grows_child_step:
  assumes par: "par < length (heap st)"
    and h: "heap st' = (heap st @ [e])[par :=
              ((heap st @ [e]) ! par)\<lparr>sub := sub ((heap st @ [e]) ! par) @ [length (heap st)]\<rparr>]"
    and r: "root_objects st' = root_objects st"
  shows "grows st st'"
proof -
  have "name (heap st' ! a) = name (heap st ! a) \<and> fsize (heap st' ! a) = fsize (heap st ! a)
      \<and> (\<exists>new. sub (heap st' ! a) = sub (heap st ! a) @ new)" if "a < length (heap st)" for a
    using that par h by (cases "a = par") (simp_all add: nth_append nth_list_update)
  then show ?thesis using h r by (simp add: grows_def)
qed









section \<open>The entries that ancestor synthesis creates\<close>

lemma iterate_path_parts_nth:
  assumes "i < length (split (CHR ''/'') path)"
  shows "iterate_path_parts path ! i =
           (join ''/'' (take i (split (CHR ''/'') path)),
            join ''/'' (take (Suc i) (split (CHR ''/'') path)))"
    and "length (iterate_path_parts path) = length (split (CHR ''/'') path)"
  using assms by (simp_all add: iterate_path_parts_def Let_def)

lemma join_take_longer:
  assumes "i < j" and "j \<le> length p" and "0 < i"
  shows "length (join sep (take i p)) < length (join sep (take j p)) \<or> sep = []"
proof -
  have "take i (take j p) @ drop i (take j p) = take j p" by (rule append_take_drop_id)
  moreover from assms have "take i (take j p) = take i p" by (simp add: min_def)
  ultimately have split: "take j p = take i p @ drop i (take j p)" by simp
  from assms have 1: "take i p \<noteq> []" by auto
  from assms have 2: "drop i (take j p) \<noteq> []" by simp
  from join_append [OF 1 2, of sep] split
  have "join sep (take j p) = join sep (take i p) @ sep @ join sep (drop i (take j p))"
    by simp
  then have "length (join sep (take j p)) =
      length (join sep (take i p)) + length sep + length (join sep (drop i (take j p)))"
    by simp
  then show ?thesis by (cases sep) simp_all
qed

lemma iterate_path_parts_distinct: "distinct (map snd (iterate_path_parts path))"
proof -
  let ?p = "split (CHR ''/'') path"
  let ?b = "\<lambda>i. join ''/'' (take (Suc i) ?p)"
  have ms: "map snd (iterate_path_parts path) = map ?b [0..<length ?p]"
    by (simp add: iterate_path_parts_def Let_def comp_def)
  have "?b i \<noteq> ?b j" if "i < j" "j < length ?p" for i j
  proof -
    from that have "Suc i < Suc j" "Suc j \<le> length ?p" "0 < Suc i" by simp_all
    from join_take_longer [OF this, of "''/''"] show ?thesis by auto
  qed
  then have "inj_on ?b {0..<length ?p}"
    by (intro linorder_inj_onI) auto
  then show ?thesis unfolding ms by (simp add: distinct_map)
qed

lemma step_grows:
  assumes wf: "wf_state st" and loopfree: "q = b \<longrightarrow> q = ''''"
    and step: "for_parts st [(q, b)] = Inr st'"
  shows "grows st st'"
proof (cases "fs_cache st b")
  case (Some a)
  with step show ?thesis by (simp add: grows_refl)
next
  case None
  from wf have valid: "\<And>k a. fs_cache st k = Some a \<Longrightarrow> a < length (heap st)"
    by (simp add: wf_state_def)
  let ?e = "from_filename b (JInt 0)"
  show ?thesis
  proof (cases "q = ''''")
    case True
    with step step_root [OF None]
    have st': "st' = st\<lparr>heap := heap st @ [?e],
             fs_cache := (fs_cache st)(b \<mapsto> length (heap st)),
             root_objects := root_objects st @ [length (heap st)]\<rparr>"
      by (simp del: for_parts.simps)
    then have h: "heap st' = heap st @ [?e]"
      and r: "root_objects st' = root_objects st @ [length (heap st)]" by simp_all
    from grows_root_step [OF h r] show ?thesis .
  next
    case False
    with loopfree have qb: "q \<noteq> b" by blast
    from step step_fail [OF None False qb] obtain p where p: "fs_cache st q = Some p"
      by (cases "fs_cache st q") (simp_all del: for_parts.simps)
    from step step_child [OF None False qb p]
    have st': "st' = add_entry p (length (heap st))
            (st\<lparr>heap := heap st @ [?e], fs_cache := (fs_cache st)(b \<mapsto> length (heap st))\<rparr>)"
      by (simp del: for_parts.simps)
    then have h: "heap st' = (heap st @ [?e])[p :=
              ((heap st @ [?e]) ! p)\<lparr>sub := sub ((heap st @ [?e]) ! p) @ [length (heap st)]\<rparr>]"
      and r: "root_objects st' = root_objects st" by (simp_all add: add_entry_def)
    from grows_child_step [OF valid [OF p] h r] show ?thesis .
  qed
qed

lemma for_parts_grows:
  assumes run: "for_parts st ps = Inr st'" and wf: "wf_state st"
    and loopfree: "\<forall>(q, b)\<in>set ps. q = b \<longrightarrow> q = ''''"
  shows "grows st st'"
proof -
  let ?P = "\<lambda>s. wf_state s \<and> grows st s"
  have "?P st'"
  proof (rule for_parts_invariant [OF run, of ?P])
    show "?P st" using wf by (simp add: grows_refl)
  next
    fix s q b s'
    assume P: "?P s" and mem: "(q, b) \<in> set ps" and step: "for_parts s [(q, b)] = Inr s'"
    from loopfree mem have lf: "q = b \<longrightarrow> q = ''''" by blast
    from P have wfs: "wf_state s" and g: "grows st s" by simp_all
    from step_wf [OF wfs lf step] step_grows [OF wfs lf step] g
    show "?P s'" by (blast intro: grows_trans)
  qed
  then show ?thesis by simp
qed

text \<open>The entry of a prefix that the loop creates.\<close>

lemma for_parts_fresh:
  assumes run: "for_parts st ps = Inr st'" and wf: "wf_state st"
    and loopfree: "\<forall>(q, b)\<in>set ps. q = b \<longrightarrow> q = ''''"
    and dist: "distinct (map snd ps)"
    and mem: "(q, b) \<in> set ps" and new: "fs_cache st b = None"
  shows "\<exists>a. fs_cache st' b = Some a \<and> length (heap st) \<le> a \<and> a < length (heap st')
           \<and> name (heap st' ! a) = basename b \<and> fsize (heap st' ! a) = JInt 0
           \<and> (\<forall>k. fs_cache st' k = Some a \<longrightarrow> k = b)
           \<and> (if q = '''' then a \<in> set (root_objects st')
               else \<exists>pa. fs_cache st' q = Some pa \<and> a \<in> set (sub (heap st' ! pa)))"
  using run wf loopfree dist mem new
proof (induction ps arbitrary: st q b)
  case Nil
  then show ?case by simp
next
  case (Cons x rest)
  obtain q0 b0 where x: "x = (q0, b0)" by (cases x)
  from Cons.prems(1) obtain s where s: "for_parts st [(q0, b0)] = Inr s"
    and rest: "for_parts s rest = Inr st'"
    unfolding x by (subst (asm) for_parts_Cons) (auto split: sum.splits)
  from Cons.prems(3) have lf0: "q0 = b0 \<longrightarrow> q0 = ''''"
    and lfr: "\<forall>(q, b)\<in>set rest. q = b \<longrightarrow> q = ''''" by (simp_all add: x)
  from Cons.prems(4) have b0_notin: "b0 \<notin> snd ` set rest" and dr: "distinct (map snd rest)"
    by (simp_all add: x)
  note wf = Cons.prems(2)
  from step_wf [OF wf lf0 s] have wfs: "wf_state s" .
  from wf have valid: "\<And>k a. fs_cache st k = Some a \<Longrightarrow> a < length (heap st)"
    by (simp add: wf_state_def)
  from wfs have valids: "\<And>k a. fs_cache s k = Some a \<Longrightarrow> a < length (heap s)"
    by (simp add: wf_state_def)
  from step_effect(3) [OF s] have len_s: "length (heap st) \<le> length (heap s)"
    by (simp split: option.splits)
  show ?case
  proof (cases "(q, b) = (q0, b0)")
    case False
    with Cons.prems(5) have memr: "(q, b) \<in> set rest" by (auto simp: x)
    then have "b \<in> snd ` set rest" by force
    with b0_notin have "b \<noteq> b0" by auto
    have "fs_cache s b = fs_cache st b"
      using step_effect(2) [OF s] \<open>b \<noteq> b0\<close> by (cases "fs_cache st b0") simp_all
    with Cons.prems(6) have "fs_cache s b = None" by simp
    from Cons.IH [OF rest wfs lfr dr memr this]
    obtain a where a: "fs_cache st' b = Some a" "length (heap s) \<le> a" "a < length (heap st')"
      "name (heap st' ! a) = basename b" "fsize (heap st' ! a) = JInt 0"
      "\<forall>k. fs_cache st' k = Some a \<longrightarrow> k = b"
      "if q = '''' then a \<in> set (root_objects st')
       else \<exists>pa. fs_cache st' q = Some pa \<and> a \<in> set (sub (heap st' ! pa))"
      by blast
    from a(2) len_s have "length (heap st) \<le> a" by simp
    with a show ?thesis by blast
  next
    case True
    then have q: "q = q0" and b: "b = b0" by simp_all
    from Cons.prems(6) b have none: "fs_cache st b0 = None" by simp
    let ?n = "length (heap st)"
    let ?e = "from_filename b0 (JInt 0)"
    from step_effect(2,3) [OF s] none
    have cs: "fs_cache s = (fs_cache st)(b0 \<mapsto> ?n)" and ls: "length (heap s) = Suc ?n"
      by simp_all
    have s_cases: "(q0 = '''' \<and> s = st\<lparr>heap := heap st @ [?e],
             fs_cache := (fs_cache st)(b0 \<mapsto> ?n),
             root_objects := root_objects st @ [?n]\<rparr>)
        \<or> (\<exists>pa. q0 \<noteq> '''' \<and> fs_cache st q0 = Some pa \<and> pa < ?n
              \<and> s = add_entry pa ?n
                    (st\<lparr>heap := heap st @ [?e], fs_cache := (fs_cache st)(b0 \<mapsto> ?n)\<rparr>))"
    proof (cases "q0 = ''''")
      case True
      from s step_root [OF none] True
      have "s = st\<lparr>heap := heap st @ [?e],
             fs_cache := (fs_cache st)(b0 \<mapsto> ?n),
             root_objects := root_objects st @ [?n]\<rparr>"
        by (simp del: for_parts.simps)
      with True show ?thesis by blast
    next
      case False
      with lf0 have qb: "q0 \<noteq> b0" by blast
      from s step_fail [OF none False qb] obtain pa where pa: "fs_cache st q0 = Some pa"
        by (cases "fs_cache st q0") (simp_all del: for_parts.simps)
      from s step_child [OF none False qb pa]
      have "s = add_entry pa ?n
                    (st\<lparr>heap := heap st @ [?e], fs_cache := (fs_cache st)(b0 \<mapsto> ?n)\<rparr>)"
        by (simp del: for_parts.simps)
      with False pa valid [OF pa] show ?thesis by blast
    qed
    have ne: "name (heap s ! ?n) = basename b0 \<and> fsize (heap s ! ?n) = JInt 0"
      using s_cases by (auto simp: add_entry_def from_filename_def)
    have att: "if q0 = '''' then ?n \<in> set (root_objects s)
               else \<exists>pa. fs_cache s q0 = Some pa \<and> ?n \<in> set (sub (heap s ! pa))"
    proof (cases "q0 = ''''")
      case True
      with s_cases show ?thesis by auto
    next
      case False
      with lf0 have qb: "q0 \<noteq> b0" by blast
      from False s_cases obtain pa where pa: "fs_cache st q0 = Some pa" "pa < ?n"
        and s_eq: "s = add_entry pa ?n
                    (st\<lparr>heap := heap st @ [?e], fs_cache := (fs_cache st)(b0 \<mapsto> ?n)\<rparr>)"
        by blast
      from pa qb have "fs_cache s q0 = Some pa" by (simp add: s_eq add_entry_def)
      moreover from pa(2) have "?n \<in> set (sub (heap s ! pa))"
        by (simp add: s_eq add_entry_def nth_append)
      ultimately show ?thesis using False by auto
    qed
    from for_parts_grows [OF rest wfs lfr] have g: "grows s st'" .
    from cs have cb: "fs_cache s b0 = Some ?n" by simp
    from for_parts_keeps [OF rest cb] have c': "fs_cache st' b0 = Some ?n" .
    from g ls have lt: "?n < length (heap st')" by (simp add: grows_def)
    from g ls ne have ne': "name (heap st' ! ?n) = basename b0 \<and> fsize (heap st' ! ?n) = JInt 0"
      by (simp add: grows_def)
    have uniq: "\<forall>k. fs_cache st' k = Some ?n \<longrightarrow> k = b0"
    proof (intro allI impI)
      fix k assume k: "fs_cache st' k = Some ?n"
      show "k = b0"
      proof (cases "fs_cache s k")
        case (Some a)
        from for_parts_keeps [OF rest Some] k have "a = ?n" by simp
        with Some cs valid [of k] show ?thesis by (auto split: if_splits)
      next
        case None
        from k have "k \<in> dom (fs_cache st')" by auto
        with for_parts_count [OF rest] None have "k \<in> snd ` set rest" by auto
        then obtain qk where "(qk, k) \<in> set rest" by force
        from Cons.IH [OF rest wfs lfr dr this None] k ls show ?thesis by auto
      qed
    qed
    have att': "if q0 = '''' then ?n \<in> set (root_objects st')
               else \<exists>pa. fs_cache st' q0 = Some pa \<and> ?n \<in> set (sub (heap st' ! pa))"
    proof (cases "q0 = ''''")
      case True
      with att have "?n \<in> set (root_objects s)" by simp
      with g True show ?thesis by (auto simp: grows_def)
    next
      case False
      with att obtain pa where pa: "fs_cache s q0 = Some pa" and in_sub: "?n \<in> set (sub (heap s ! pa))"
        by auto
      from g valids [OF pa] obtain new where "sub (heap st' ! pa) = sub (heap s ! pa) @ new"
        unfolding grows_def by blast
      with in_sub have "?n \<in> set (sub (heap st' ! pa))" by simp
      with for_parts_keeps [OF rest pa] False show ?thesis by auto
    qed
    have "length (heap st) \<le> ?n" by simp
    with c' lt ne' uniq att' show ?thesis unfolding q b by blast
  qed
qed

section \<open>Deep trees and the recursion allowance\<close>

lemma split_no_sep: "c \<notin> set x \<Longrightarrow> split c x = [x]"
  by (induction x) (auto simp: Let_def)

lemma split_append_sep: "c \<notin> set x \<Longrightarrow> split c (x @ c # rest) = x # split c rest"
  by (induction x) (auto simp: Let_def)

lemma split_join:
  assumes "xs \<noteq> []" and "\<forall>x\<in>set xs. c \<notin> set x"
  shows "split c (join [c] xs) = xs"
  using assms
proof (induction xs)
  case Nil
  then show ?case by simp
next
  case (Cons x xs)
  show ?case
  proof (cases xs)
    case Nil
    with Cons.prems show ?thesis by (simp add: split_no_sep)
  next
    case (Cons y ys)
    with Cons.IH Cons.prems have "split c (join [c] xs) = xs" by simp
    with Cons Cons.prems show ?thesis by (simp add: split_append_sep)
  qed
qed

lemma hd_join: "x \<noteq> [] \<Longrightarrow> hd (join sep (x # xs)) = hd x"
  by (cases xs) simp_all

lemma chain_map:
  assumes "\<And>i. Suc i < length bs \<Longrightarrow> f (bs ! Suc i) \<in> set (sub (h ! f (bs ! i)))"
  shows "chain h (map f bs)"
  using assms
proof (induction bs)
  case Nil
  show ?case by simp
next
  case (Cons b bs)
  show ?case
  proof (cases bs)
    case Nil
    then show ?thesis by simp
  next
    case (Cons c cs)
    from Cons.prems [of 0] Cons have first: "f c \<in> set (sub (h ! f b))" by simp
    have "chain h (map f bs)"
    proof (rule Cons.IH)
      fix i assume "Suc i < length bs"
      with Cons.prems [of "Suc i"] show "f (bs ! Suc i) \<in> set (sub (h ! f (bs ! i)))" by simp
    qed
    with first Cons show ?thesis by simp
  qed
qed

text \<open>Full-path synthesis of a path with no indexed prefix builds a chain from a root.\<close>

lemma full_path_chain:
  assumes wf: "wf_state st"
    and new: "\<forall>(q, b)\<in>set (iterate_path_parts p). fs_cache st b = None"
    and p: "p \<noteq> []" "hd p \<noteq> CHR ''/''"
    and run: "for_parts st (iterate_path_parts p) = Inr st'"
  shows "\<exists>a as. length (a # as) = length (split (CHR ''/'') p) \<and> chain (heap st') (a # as)
           \<and> a \<in> set (root_objects st')"
proof -
  let ?ps = "iterate_path_parts p"
  let ?sp = "split (CHR ''/'') p"
  let ?f = "\<lambda>x. the (fs_cache st' (snd x))"
  have len: "length ?ps = length ?sp" by (simp add: iterate_path_parts_def Let_def)
  have lf: "\<forall>(q, b)\<in>set ?ps. q = b \<longrightarrow> q = ''''"
    using iterate_path_parts_loopfree by blast
  note fresh = for_parts_fresh [OF run wf lf iterate_path_parts_distinct]
  have link: "?f (?ps ! Suc i) \<in> set (sub (heap st' ! ?f (?ps ! i)))" if i: "Suc i < length ?ps" for i
  proof -
    from i len have i1: "Suc i < length ?sp" and i0: "i < length ?sp" by simp_all
    let ?q = "join ''/'' (take (Suc i) ?sp)"
    let ?b = "join ''/'' (take (Suc (Suc i)) ?sp)"
    from iterate_path_parts_nth(1) [OF i1] have nth1: "?ps ! Suc i = (?q, ?b)" .
    from iterate_path_parts_nth(1) [OF i0] have nth0: "snd (?ps ! i) = ?q" by simp
    from i nth1 have mem: "(?q, ?b) \<in> set ?ps" by (metis nth_mem)
    from i have "?ps ! i \<in> set ?ps" by simp
    with nth0 have "(fst (?ps ! i), ?q) \<in> set ?ps" by (metis prod.collapse)
    from iterate_path_parts_nonempty [OF p this] have qne: "?q \<noteq> ''''" .
    from new mem have "fs_cache st ?b = None" by blast
    from fresh [OF mem this] qne obtain a pa where "fs_cache st' ?b = Some a"
      and "fs_cache st' ?q = Some pa" and "a \<in> set (sub (heap st' ! pa))" by auto
    with nth1 nth0 show ?thesis by simp
  qed
  from chain_map [of ?ps ?f "heap st'", OF link] have ch: "chain (heap st') (map ?f ?ps)" .
  from split_not_Nil [of "CHR ''/''" p] len obtain x xs where ps: "?ps = x # xs"
    by (cases ?ps) auto
  have "0 < length ?sp" using split_not_Nil [of "CHR ''/''" p] by simp
  from iterate_path_parts_nth(1) [OF this] ps have x: "x = ('''', join ''/'' (take (Suc 0) ?sp))"
    by simp
  then have mem0: "('''', snd x) \<in> set ?ps" using ps by simp
  with new have "fs_cache st (snd x) = None" by blast
  from fresh [OF mem0 this] obtain a0 where a0: "fs_cache st' (snd x) = Some a0"
    and "if (''''::string) = '''' then a0 \<in> set (root_objects st')
         else \<exists>pa. fs_cache st' '''' = Some pa \<and> a0 \<in> set (sub (heap st' ! pa))"
    by blast
  then have "a0 \<in> set (root_objects st')" by simp
  with a0 have root: "?f x \<in> set (root_objects st')" by simp
  from ch ps have "chain (heap st') (?f x # map ?f xs)" by simp
  moreover from ps len have "length (?f x # map ?f xs) = length ?sp" by simp
  ultimately show ?thesis using root by blast
qed

lemma deep_directory_raises:
  assumes "limit \<le> n"
  shows "analyze limit
           (\<lambda>l. Some (JObj [(''path'', JStr (join ''/'' (replicate (Suc n) ''d''))),
                            (''type'', JStr ''d''), (''size'', JInt 0)]))
           [l] True = Inl RecursionError"
proof -
  let ?P = "join ''/'' (replicate (Suc n) ''d'')"
  let ?rec = "JObj [(''path'', JStr ?P), (''type'', JStr ''d''), (''size'', JInt 0)]"
  have hdP: "hd ?P = CHR ''d''" by (simp add: hd_join)
  have neP: "?P \<noteq> []" by (simp add: join_nonempty)
  from hdP have dot: "?P \<noteq> ''.''" by auto
  from hdP have slash: "hd ?P \<noteq> CHR ''/''" by simp
  have sp: "split (CHR ''/'') ?P = replicate (Suc n) ''d''"
    by (rule split_join) auto
  have rec: "getitem ?rec ''path'' = Inr (JStr ?P)" "getitem ?rec ''type'' = Inr (JStr ''d'')"
    "getitem ?rec ''size'' = Inr (JInt 0)" by simp_all
  from process_new_dir_full_path_total [of "init True" ?P]
  obtain st where run: "for_parts (init True) (iterate_path_parts ?P) = Inr st"
    by (auto simp: process_new_dir_full_path_def)
  have step: "process_record (init True) ?rec = Inr st"
    unfolding process_record_str [OF rec dot, of "init True"]
    using run by (simp add: process_new_dir_def process_new_dir_full_path_def init_def)
  have "\<forall>(q, b)\<in>set (iterate_path_parts ?P). fs_cache (init True) b = None"
    by (simp add: init_def)
  from full_path_chain [OF wf_state_init this neP slash run] sp
  obtain a as where l: "length (a # as) = Suc n" and ch: "chain (heap st) (a # as)"
    and root: "a \<in> set (root_objects st)" by auto
  have "entry_to_ncdu limit (heap st) a = None"
  proof (rule ccontr)
    assume "entry_to_ncdu limit (heap st) a \<noteq> None"
    from chain_needs_depth [OF ch this] l assms show False by simp
  qed
  with root have "generate_ncdu_tree limit st = None"
    by (auto simp: generate_ncdu_tree_eq)
  with step show ?thesis by (simp add: analyze_def)
qed

section \<open>Attaching one record\<close>


lemma attach_child:
  assumes wf: "wf_state st"
    and rec: "getitem rec ''path'' = Inr (JStr p)" "getitem rec ''type'' = Inr ty"
      "getitem rec ''size'' = Inr sz" "p \<noteq> ''.''"
    and par: "fs_cache st (dirname p) = Some par"
    and kind: "ty = JStr ''d'' \<or> dirname p \<noteq> ''''"
  shows "\<exists>st'. process_record st rec = Inr st'
           \<and> sub (heap st' ! par) = sub (heap st ! par) @ [length (heap st)]
           \<and> root_objects st' = root_objects st
           \<and> length (heap st') = Suc (length (heap st))
           \<and> heap st' ! length (heap st) = \<lparr>name = basename p, fsize = sz, sub = []\<rparr>
           \<and> fs_cache st' = (if ty = JStr ''d'' then (fs_cache st)(p \<mapsto> length (heap st))
                              else fs_cache st)"
proof -
  from wf par have "par < length (heap st)" by (simp add: wf_state_def)
  then show ?thesis
    using par kind
    by (auto simp: process_record_str [OF rec] add_entry_def from_filename_def nth_append)
qed

section \<open>Claims on whole runs\<close>

text \<open>
  C4. Building from the single line \<^verbatim>\<open>{"path":"a.txt","type":"f","size":42}\<close> and
  serializing returns exactly \<^verbatim>\<open>[1,1,{},[{"name":"/"},{"name":"a.txt","dsize":42}]]\<close>,
  in both modes, for every decoder that reads the line as the object it denotes, and
  whenever the interpreter has room for one call of \<^verbatim>\<open>entry_to_ncdu\<close>.
\<close>

theorem single_root_file_document:
  assumes \<open>loads ''{"path":"a.txt","type":"f","size":42}'' =
      Some (JObj [(''path'', JStr ''a.txt''), (''type'', JStr ''f''), (''size'', JInt 42)])\<close>
  shows \<open>analyze (Suc limit) loads [''{"path":"a.txt","type":"f","size":42}''] fp =
      Inr (JArr [JInt 1, JInt 1, JObj [],
             JArr [JObj [(''name'', JStr ''/'')],
                   JObj [(''name'', JStr ''a.txt''), (''dsize'', JInt 42)]]])\<close>
  using assms
  by (simp add: analyze_def path_simps heap_simps build_simps generate_ncdu_tree_def)

theorem single_root_file_document_witness:
  \<open>analyze (Suc 0) (\<lambda>l. if l = ''{"path":"a.txt","type":"f","size":42}''
                 then Some (JObj [(''path'', JStr ''a.txt''), (''type'', JStr ''f''),
                                  (''size'', JInt 42)])
                 else None)
     [''{"path":"a.txt","type":"f","size":42}''] True =
      Inr (JArr [JInt 1, JInt 1, JObj [],
             JArr [JObj [(''name'', JStr ''/'')],
                   JObj [(''name'', JStr ''a.txt''), (''dsize'', JInt 42)]]])\<close>
  by (rule single_root_file_document) simp

text \<open>
  C9. A line that the decoder rejects ends the run there: when the lines before it were
  processed, the result is \<^verbatim>\<open>JSONDecodeError\<close>; the lines after it play no part in the
  result; and \<^verbatim>\<open>analyze\<close> returns an error, never a document, whatever room the
  interpreter has for the recursion of the serializer.
\<close>

theorem malformed_line_halts:
  assumes "loads l = None"
  shows "(\<forall>st'. process_lines loads st pre = Inr st' \<longrightarrow>
            process_lines loads st (pre @ l # post) = Inl JSONDecodeError)
       \<and> process_lines loads st (pre @ l # post) = process_lines loads st (pre @ [l])
       \<and> (\<exists>e. process_lines loads st (pre @ l # post) = Inl e)
       \<and> (\<exists>e. analyze limit loads (pre @ l # post) fp = Inl e)"
  using assms
  by (auto simp: process_lines_append analyze_def split: sum.splits)

theorem malformed_line_halts_witness:
  "process_lines (\<lambda>l. None) (init True) ([] @ ''{'' # [''x'']) = Inl JSONDecodeError
   \<and> (\<exists>e. analyze 1000 (\<lambda>l. None) ([] @ ''{'' # [''x'']) True = Inl e)"
  using malformed_line_halts [of "\<lambda>l. None" "''{''" "init True" "[]" "[''x'']" 1000 True]
  by simp

text \<open>
  C7. A record whose \<^verbatim>\<open>path\<close> is \<^verbatim>\<open>"."\<close> leaves the analyzer as it was, whatever its
  \<^verbatim>\<open>type\<close> is and whether or not it has a \<^verbatim>\<open>size\<close>; a run with such a line gives the
  result of the run without it, so the line adds no node to the document (with the same
  room for the recursion of the serializer in both runs, whatever it is).
\<close>

theorem dot_record_skipped:
  assumes "getitem rec ''path'' = Inr (JStr ''.'')" and "getitem rec ''type'' = Inr t"
    and "loads l = Some rec"
  shows "process_record st rec = Inr st
       \<and> process_lines loads st (pre @ l # post) = process_lines loads st (pre @ post)
       \<and> analyze limit loads (pre @ l # post) fp = analyze limit loads (pre @ post) fp"
proof -
  have skip: "process_record st' rec = Inr st'" for st'
    using assms by (simp add: process_record_def)
  have "process_lines loads st' (pre @ l # post) = process_lines loads st' (pre @ post)" for st'
    using assms skip by (simp add: process_lines_append split: sum.splits)
  with skip show ?thesis by (simp add: analyze_def)
qed

theorem dot_record_skipped_witness:
  "process_record (init False) (JObj [(''path'', JStr ''.''), (''type'', JStr ''d'')])
     = Inr (init False)
   \<and> analyze 1000 (\<lambda>l. Some (JObj [(''path'', JStr ''.''), (''type'', JStr ''d'')]))
       ([] @ ''dot'' # []) False
     = analyze 1000 (\<lambda>l. Some (JObj [(''path'', JStr ''.''), (''type'', JStr ''d'')]))
         ([] @ []) False"
  using dot_record_skipped [of "JObj [(''path'', JStr ''.''), (''type'', JStr ''d'')]"
      "JStr ''d''" "\<lambda>l. Some (JObj [(''path'', JStr ''.''), (''type'', JStr ''d'')])"
      "''dot''" "init False" "[]" "[]" 1000 False]
  by simp

section \<open>Claims on the serializer\<close>

text \<open>
  C6, as the code has it. The claim fails on deep trees: the serializer is plain
  recursion, and one directory record whose path has 1001 components builds a chain of
  1001 entries, on which \<^verbatim>\<open>entry_to_ncdu\<close> needs 1001 nested calls. An interpreter that
  allows 1000 of them (Python's default recursion limit allows fewer) ends the run with
  \<^verbatim>\<open>RecursionError\<close> and emits no document.
\<close>

theorem serializer_deep_tree_counterexample:
  "analyze 1000
     (\<lambda>l. Some (JObj [(''path'', JStr (join ''/'' (replicate (Suc 1000) ''d''))),
                      (''type'', JStr ''d''), (''size'', JInt 0)]))
     [''deep''] True = Inl RecursionError"
  by (rule deep_directory_raises) simp



section \<open>Claims on the tree\<close>

text \<open>
  C5. After a run that ends without an exception, in either mode: every entry of the
  store that is not in the root list occurs exactly once in the \<open>sub\<close> list of exactly
  one other entry and in no other \<open>sub\<close> list; every entry of the root list is in the
  store, occurs once in the root list and in no \<open>sub\<close> list; and the children relation
  has no cycle. (The store holds the entries that the analyzer keeps a reference to.)
\<close>

theorem tree_property:
  assumes "process_lines loads (init fp) lines = Inr st"
  shows "(\<forall>a<length (heap st). a \<notin> set (root_objects st) \<longrightarrow>
            (\<exists>p<length (heap st). p \<noteq> a \<and> count_list (sub (heap st ! p)) a = 1
               \<and> (\<forall>q<length (heap st). q \<noteq> p \<longrightarrow> a \<notin> set (sub (heap st ! q)))))
       \<and> (\<forall>a\<in>set (root_objects st).
            a < length (heap st) \<and> count_list (root_objects st) a = 1
            \<and> (\<forall>q<length (heap st). a \<notin> set (sub (heap st ! q))))
       \<and> acyclic {(p, c). p < length (heap st) \<and> c \<in> set (sub (heap st ! p))}"
proof -
  from assms wf_state_init have wf: "wf_state st" by (rule process_lines_wf)
  then have "forward_store (heap st)" by (simp add: wf_state_def)
  then have "acyclic {(p, c). p < length (heap st) \<and> c \<in> set (sub (heap st ! p))}"
    by (rule forward_store_acyclic)
  moreover have "\<forall>a<length (heap st). a \<notin> set (root_objects st) \<longrightarrow>
            (\<exists>p<length (heap st). p \<noteq> a \<and> count_list (sub (heap st ! p)) a = 1
               \<and> (\<forall>q<length (heap st). q \<noteq> p \<longrightarrow> a \<notin> set (sub (heap st ! q))))"
    using wf_state_child_of [OF wf] by (intro allI impI)
  moreover have "\<forall>a\<in>set (root_objects st).
            a < length (heap st) \<and> count_list (root_objects st) a = 1
            \<and> (\<forall>q<length (heap st). a \<notin> set (sub (heap st ! q)))"
    using wf_state_root_of [OF wf] by (intro ballI)
  ultimately show ?thesis by (intro conjI)
qed


theorem tree_property_witness:
  "acyclic {(p, c). p < length [\<lparr>name = ''x'', fsize = JInt 0, sub = [1]\<rparr>,
                \<lparr>name = ''y'', fsize = JInt 0, sub = [2]\<rparr>,
                \<lparr>name = ''z.txt'', fsize = JInt 5, sub = []\<rparr>]
              \<and> c \<in> set (sub ([\<lparr>name = ''x'', fsize = JInt 0, sub = [1]\<rparr>,
                \<lparr>name = ''y'', fsize = JInt 0, sub = [2]\<rparr>,
                \<lparr>name = ''z.txt'', fsize = JInt 5, sub = []\<rparr>] ! p))}"
  using tree_property [OF run_xy_xyz] by simp

section \<open>Claims on directory records\<close>

text \<open>
  C8. In per-dataset mode, a directory record whose parent path is not in the index
  creates exactly one entry, named after the last component of the path and of size 0;
  the path is not decomposed; the entry is indexed under the full path and appended to
  the root list. The records \<^verbatim>\<open>data1\<close> and \<^verbatim>\<open>data2\<close> give two root entries, and files
  that arrive later under \<^verbatim>\<open>data1/\<close> and \<^verbatim>\<open>data2/\<close> go to their own root each
  (the document is returned whenever the interpreter has room for two nested calls of
  \<^verbatim>\<open>entry_to_ncdu\<close>).
\<close>

theorem dataset_directory_is_root:
  assumes "\<not> full_path st"
    and "getitem rec ''path'' = Inr (JStr p)" and "getitem rec ''type'' = Inr (JStr ''d'')"
    and "getitem rec ''size'' = Inr sz" and "p \<noteq> ''.''"
    and "fs_cache st (dirname p) = None"
  shows \<open>process_record st rec =
           Inr (st\<lparr>heap := heap st @ [\<lparr>name = basename p, fsize = JInt 0, sub = []\<rparr>],
                   fs_cache := (fs_cache st)(p \<mapsto> length (heap st)),
                   root_objects := root_objects st @ [length (heap st)]\<rparr>)
       \<and> process_lines example_loads (init False)
            [''{"path":"data1","type":"d","size":0}'', ''{"path":"data2","type":"d","size":0}''] =
           Inr \<lparr>heap = [\<lparr>name = ''data1'', fsize = JInt 0, sub = []\<rparr>,
                        \<lparr>name = ''data2'', fsize = JInt 0, sub = []\<rparr>],
                root_objects = [0, 1],
                fs_cache = [''data1'' \<mapsto> 0, ''data2'' \<mapsto> 1],
                full_path = False\<rparr>
       \<and> analyze (Suc (Suc limit)) example_loads
            [''{"path":"data1","type":"d","size":0}'', ''{"path":"data2","type":"d","size":0}'',
             ''{"path":"data1/f.txt","type":"f","size":1}'',
             ''{"path":"data2/f.txt","type":"f","size":2}''] False =
           Inr (JArr [JInt 1, JInt 1, JObj [],
                  JArr [JObj [(''name'', JStr ''/'')],
                        JArr [JObj [(''name'', JStr ''data1'')],
                              JObj [(''name'', JStr ''f.txt''), (''dsize'', JInt 1)]],
                        JArr [JObj [(''name'', JStr ''data2'')],
                              JObj [(''name'', JStr ''f.txt''), (''dsize'', JInt 2)]]]])\<close>
proof -
  have "process_record st rec =
           Inr (st\<lparr>heap := heap st @ [\<lparr>name = basename p, fsize = JInt 0, sub = []\<rparr>],
                   fs_cache := (fs_cache st)(p \<mapsto> length (heap st)),
                   root_objects := root_objects st @ [length (heap st)]\<rparr>)"
    using assms
    by (simp add: process_record_str [OF assms(2,3,4,5)] process_new_dir_def
        process_new_dir_dataset_def alloc_def from_filename_def)
  moreover have \<open>process_lines example_loads (init False)
            [''{"path":"data1","type":"d","size":0}'', ''{"path":"data2","type":"d","size":0}''] =
           Inr \<lparr>heap = [\<lparr>name = ''data1'', fsize = JInt 0, sub = []\<rparr>,
                        \<lparr>name = ''data2'', fsize = JInt 0, sub = []\<rparr>],
                root_objects = [0, 1],
                fs_cache = [''data1'' \<mapsto> 0, ''data2'' \<mapsto> 1],
                full_path = False\<rparr>\<close>
    by (simp add: run_simps)
  moreover have \<open>analyze (Suc (Suc limit)) example_loads
            [''{"path":"data1","type":"d","size":0}'', ''{"path":"data2","type":"d","size":0}'',
             ''{"path":"data1/f.txt","type":"f","size":1}'',
             ''{"path":"data2/f.txt","type":"f","size":2}''] False =
           Inr (JArr [JInt 1, JInt 1, JObj [],
                  JArr [JObj [(''name'', JStr ''/'')],
                        JArr [JObj [(''name'', JStr ''data1'')],
                              JObj [(''name'', JStr ''f.txt''), (''dsize'', JInt 1)]],
                        JArr [JObj [(''name'', JStr ''data2'')],
                              JObj [(''name'', JStr ''f.txt''), (''dsize'', JInt 2)]]]])\<close>
    by (simp add: analyze_def generate_ncdu_tree_def run_simps)
  ultimately show ?thesis by (intro conjI)
qed

theorem dataset_directory_is_root_witness:
  \<open>process_record (init False)
     (JObj [(''path'', JStr ''pool/data1''), (''type'', JStr ''d''), (''size'', JInt 0)]) =
   Inr \<lparr>heap = [\<lparr>name = ''data1'', fsize = JInt 0, sub = []\<rparr>],
        root_objects = [0],
        fs_cache = [''pool/data1'' \<mapsto> 0],
        full_path = False\<rparr>\<close>
proof -
  let ?rec = "JObj [(''path'', JStr ''pool/data1''), (''type'', JStr ''d''), (''size'', JInt 0)]"
  have "\<not> full_path (init False)" by (simp add: init_def)
  moreover have "getitem ?rec ''path'' = Inr (JStr ''pool/data1'')"
    and "getitem ?rec ''type'' = Inr (JStr ''d'')"
    and "getitem ?rec ''size'' = Inr (JInt 0)" and "''pool/data1'' \<noteq> ''.''"
    and "fs_cache (init False) (dirname ''pool/data1'') = None"
    by (simp_all add: init_def)
  ultimately show ?thesis
    using dataset_directory_is_root [of "init False" ?rec "''pool/data1''" "JInt 0"]
    by (simp add: init_def path_simps)
qed

text \<open>
  C1, as the code has it. The claim fails for its own example: a file record is attached
  by a direct lookup of its parent directory, and only directory records synthesize
  ancestors. The run ends in \<^verbatim>\<open>KeyError\<close> before the serializer is reached.
\<close>

theorem full_path_single_file_counterexample:
  \<open>\<forall>limit. analyze limit example_loads [''{"path":"x/y/z.txt","type":"f","size":5}''] True
     = Inl (KeyError ''x/y'')\<close>
  by (simp add: analyze_def run_simps)

text \<open>
  C1 (amended). In full-path mode, a record with a string path other than \<^verbatim>\<open>"."\<close> is
  processed without an exception exactly when it is a directory record, or its
  \<^verbatim>\<open>parent_dir\<close> is empty, or its \<^verbatim>\<open>parent_dir\<close> is in the index; ancestor synthesis itself
  never fails a lookup. The directory record \<^verbatim>\<open>x/y\<close> followed by the file record
  \<^verbatim>\<open>x/y/z.txt\<close> of size 5, with no announcement of \<^verbatim>\<open>x\<close>, serializes to the tree
  \<^verbatim>\<open>/ -> x -> y -> z.txt\<close>, with \<^verbatim>\<open>x\<close> and \<^verbatim>\<open>y\<close> as name-only nodes and \<^verbatim>\<open>z.txt\<close> as a
  leaf with \<^verbatim>\<open>dsize\<close> 5, whenever the interpreter has room for three nested calls of
  \<^verbatim>\<open>entry_to_ncdu\<close>.
\<close>

theorem full_path_parent_lookup:
  assumes "full_path st"
    and "getitem rec ''path'' = Inr (JStr p)" and "getitem rec ''type'' = Inr ty"
    and "getitem rec ''size'' = Inr sz" and "p \<noteq> ''.''"
  shows \<open>((\<exists>st'. process_record st rec = Inr st') \<longleftrightarrow>
            (ty = JStr ''d'' \<or> dirname p = '''' \<or> fs_cache st (dirname p) \<noteq> None))
       \<and> (\<exists>st'. process_new_dir_full_path st p = Inr st')
       \<and> analyze (Suc (Suc (Suc limit))) example_loads
            [''{"path":"x/y","type":"d","size":0}'', ''{"path":"x/y/z.txt","type":"f","size":5}'']
            True =
           Inr (JArr [JInt 1, JInt 1, JObj [],
                  JArr [JObj [(''name'', JStr ''/'')],
                        JArr [JObj [(''name'', JStr ''x'')],
                              JArr [JObj [(''name'', JStr ''y'')],
                                    JObj [(''name'', JStr ''z.txt''), (''dsize'', JInt 5)]]]]])\<close>
proof -
  have "(\<exists>st'. process_record st rec = Inr st') \<longleftrightarrow>
            (ty = JStr ''d'' \<or> dirname p = '''' \<or> fs_cache st (dirname p) \<noteq> None)"
    using assms(1) process_new_dir_full_path_total [of st p]
    by (auto simp: process_record_str [OF assms(2,3,4,5)] process_new_dir_def
        split: option.splits)
  moreover note process_new_dir_full_path_total [of st p]
  moreover have \<open>analyze (Suc (Suc (Suc limit))) example_loads
            [''{"path":"x/y","type":"d","size":0}'', ''{"path":"x/y/z.txt","type":"f","size":5}'']
            True =
           Inr (JArr [JInt 1, JInt 1, JObj [],
                  JArr [JObj [(''name'', JStr ''/'')],
                        JArr [JObj [(''name'', JStr ''x'')],
                              JArr [JObj [(''name'', JStr ''y'')],
                                    JObj [(''name'', JStr ''z.txt''), (''dsize'', JInt 5)]]]]])\<close>
    unfolding analyze_def run_xy_xyz by (simp add: generate_ncdu_tree_def)
  ultimately show ?thesis by (intro conjI)
qed

theorem full_path_parent_lookup_witness:
  \<open>(\<exists>st'. process_record (init True)
            (JObj [(''path'', JStr ''x/y''), (''type'', JStr ''d''), (''size'', JInt 0)]) = Inr st')
   \<and> (\<exists>st'. process_new_dir_full_path (init True) ''x/y'' = Inr st')\<close>
proof -
  let ?rec = "JObj [(''path'', JStr ''x/y''), (''type'', JStr ''d''), (''size'', JInt 0)]"
  have "full_path (init True)" by (simp add: init_def)
  moreover have "getitem ?rec ''path'' = Inr (JStr ''x/y'')"
    and "getitem ?rec ''type'' = Inr (JStr ''d'')"
    and "getitem ?rec ''size'' = Inr (JInt 0)" and "''x/y'' \<noteq> ''.''"
    by simp_all
  ultimately show ?thesis
    using full_path_parent_lookup [of "init True" ?rec "''x/y''" "JStr ''d''" "JInt 0"]
    by blast
qed

section \<open>Claims on the path index\<close>

text \<open>
  C2, as the code has it. The claim fails when a directory is synthesized first and
  announced afterwards: \<^verbatim>\<open>a/b/c\<close> synthesizes \<^verbatim>\<open>a\<close>, \<^verbatim>\<open>a/b\<close> and \<^verbatim>\<open>a/b/c\<close>; the record
  \<^verbatim>\<open>a/b\<close> then finds its parent \<^verbatim>\<open>a\<close> in the index, so a second entry named \<^verbatim>\<open>b\<close> is
  appended to \<^verbatim>\<open>a\<close> and the index entry of \<^verbatim>\<open>a/b\<close> is assigned again.
\<close>

theorem duplicate_directory_counterexample:
  \<open>(case process_lines example_loads (init True) [''{"path":"a/b/c","type":"d","size":0}''] of
      Inl e \<Rightarrow> False
    | Inr st \<Rightarrow> map name (heap st) = [''a'', ''b'', ''c''] \<and> fs_cache st ''a/b'' = Some 1)
   \<and> (case process_lines example_loads (init True)
          [''{"path":"a/b/c","type":"d","size":0}'', ''{"path":"a/b","type":"d","size":4096}''] of
      Inl e \<Rightarrow> False
    | Inr st \<Rightarrow> map name (heap st) = [''a'', ''b'', ''c'', ''b'']
        \<and> sub (heap st ! 0) = [1, 3] \<and> fs_cache st ''a/b'' = Some 3)\<close>
  by (simp add: run_simps)

text \<open>
  C2 (amended). In every state that a run of the builder reaches, ancestor synthesis of
  a path never creates an entry for a prefix that is already in the index and never
  assigns its index entry again: it does not fail, every index entry is kept, the old
  entries keep their names and sizes and their children and the roots are only appended
  to, the keys of the index afterwards are the old keys and the prefixes of the path,
  and exactly one entry is created for each prefix that was not indexed. That entry is
  the prefix's own: it is new in the store, it is named by the last component of the
  prefix, its size is 0, no other key of the index points to it, and it is attached to
  the root list when the prefix has one component and to the children of the entry of
  the constructed parent path otherwise. Synthesis of the same path a second time
  changes nothing. A directory record whose parent path is in the index, on the other
  hand, always creates a new entry, appends it to the children of its parent and
  assigns the index entry of its path to it, whether or not the path was indexed
  before; so a path that is synthesized first and announced afterwards has two entries.
\<close>

theorem synthesis_idempotent:
  assumes reach: "process_lines loads (init fp) pre = Inr st"
  shows "(\<exists>st'. process_new_dir_full_path st path = Inr st'
           \<and> (\<forall>k a. fs_cache st k = Some a \<longrightarrow> fs_cache st' k = Some a)
           \<and> grows st st'
           \<and> dom (fs_cache st') = dom (fs_cache st) \<union> snd ` set (iterate_path_parts path)
           \<and> length (heap st') =
               length (heap st) + card (snd ` set (iterate_path_parts path) - dom (fs_cache st))
           \<and> (\<forall>(q, b)\<in>set (iterate_path_parts path). fs_cache st b = None \<longrightarrow>
                (\<exists>a. fs_cache st' b = Some a
                   \<and> length (heap st) \<le> a \<and> a < length (heap st')
                   \<and> name (heap st' ! a) = basename b \<and> fsize (heap st' ! a) = JInt 0
                   \<and> (\<forall>k. fs_cache st' k = Some a \<longrightarrow> k = b)
                   \<and> (if q = '''' then a \<in> set (root_objects st')
                       else \<exists>pa. fs_cache st' q = Some pa \<and> a \<in> set (sub (heap st' ! pa)))))
           \<and> process_new_dir_full_path st' path = Inr st')
       \<and> (\<forall>rec p sz par.
             getitem rec ''path'' = Inr (JStr p) \<and> getitem rec ''type'' = Inr (JStr ''d'')
             \<and> getitem rec ''size'' = Inr sz \<and> p \<noteq> ''.''
             \<and> fs_cache st (dirname p) = Some par
           \<longrightarrow> (\<exists>st'. process_record st rec = Inr st'
                   \<and> length (heap st') = Suc (length (heap st))
                   \<and> heap st' ! length (heap st) = \<lparr>name = basename p, fsize = sz, sub = []\<rparr>
                   \<and> fs_cache st' = (fs_cache st)(p \<mapsto> length (heap st))
                   \<and> sub (heap st' ! par) = sub (heap st ! par) @ [length (heap st)]
                   \<and> root_objects st' = root_objects st))"
proof -
  let ?ps = "iterate_path_parts path"
  from reach wf_state_init have wf: "wf_state st" by (rule process_lines_wf)
  have lf: "\<forall>(q, b)\<in>set ?ps. q = b \<longrightarrow> q = ''''"
    using iterate_path_parts_loopfree by blast
  from process_new_dir_full_path_total [of st path]
  obtain st' where run: "for_parts st ?ps = Inr st'"
    by (auto simp: process_new_dir_full_path_def)
  note cnt = for_parts_count [OF run]
  have keeps: "\<forall>k a. fs_cache st k = Some a \<longrightarrow> fs_cache st' k = Some a"
    using for_parts_keeps [OF run] by blast
  from for_parts_grows [OF run wf lf] have g: "grows st st'" .
  have fresh: "\<forall>(q, b)\<in>set ?ps. fs_cache st b = None \<longrightarrow>
                (\<exists>a. fs_cache st' b = Some a
                   \<and> length (heap st) \<le> a \<and> a < length (heap st')
                   \<and> name (heap st' ! a) = basename b \<and> fsize (heap st' ! a) = JInt 0
                   \<and> (\<forall>k. fs_cache st' k = Some a \<longrightarrow> k = b)
                   \<and> (if q = '''' then a \<in> set (root_objects st')
                       else \<exists>pa. fs_cache st' q = Some pa \<and> a \<in> set (sub (heap st' ! pa))))"
  proof (intro ballI, clarify)
    fix q b assume "(q, b) \<in> set ?ps" and "fs_cache st b = None"
    from for_parts_fresh [OF run wf lf iterate_path_parts_distinct this]
    show "\<exists>a. fs_cache st' b = Some a
                   \<and> length (heap st) \<le> a \<and> a < length (heap st')
                   \<and> name (heap st' ! a) = basename b \<and> fsize (heap st' ! a) = JInt 0
                   \<and> (\<forall>k. fs_cache st' k = Some a \<longrightarrow> k = b)
                   \<and> (if q = '''' then a \<in> set (root_objects st')
                       else \<exists>pa. fs_cache st' q = Some pa \<and> a \<in> set (sub (heap st' ! pa)))" .
  qed
  have "fs_cache st' (snd x) \<noteq> None" if "x \<in> set ?ps" for x
  proof -
    from that have "snd x \<in> snd ` set ?ps" by (rule imageI)
    with cnt have "snd x \<in> dom (fs_cache st')" by blast
    then show ?thesis by auto
  qed
  then have "\<forall>(q, b)\<in>set ?ps. fs_cache st' b \<noteq> None"
    by (simp add: case_prod_beta)
  then have idem: "for_parts st' ?ps = Inr st'" by (rule for_parts_idem)
  have first: "\<exists>st'. process_new_dir_full_path st path = Inr st'
           \<and> (\<forall>k a. fs_cache st k = Some a \<longrightarrow> fs_cache st' k = Some a)
           \<and> grows st st'
           \<and> dom (fs_cache st') = dom (fs_cache st) \<union> snd ` set ?ps
           \<and> length (heap st') = length (heap st) + card (snd ` set ?ps - dom (fs_cache st))
           \<and> (\<forall>(q, b)\<in>set ?ps. fs_cache st b = None \<longrightarrow>
                (\<exists>a. fs_cache st' b = Some a
                   \<and> length (heap st) \<le> a \<and> a < length (heap st')
                   \<and> name (heap st' ! a) = basename b \<and> fsize (heap st' ! a) = JInt 0
                   \<and> (\<forall>k. fs_cache st' k = Some a \<longrightarrow> k = b)
                   \<and> (if q = '''' then a \<in> set (root_objects st')
                       else \<exists>pa. fs_cache st' q = Some pa \<and> a \<in> set (sub (heap st' ! pa)))))
           \<and> process_new_dir_full_path st' path = Inr st'"
    unfolding process_new_dir_full_path_def
    using run keeps g cnt fresh idem by (intro exI [of _ st'] conjI) simp_all
  have second: "\<forall>rec p sz par.
             getitem rec ''path'' = Inr (JStr p) \<and> getitem rec ''type'' = Inr (JStr ''d'')
             \<and> getitem rec ''size'' = Inr sz \<and> p \<noteq> ''.''
             \<and> fs_cache st (dirname p) = Some par
           \<longrightarrow> (\<exists>st'. process_record st rec = Inr st'
                   \<and> length (heap st') = Suc (length (heap st))
                   \<and> heap st' ! length (heap st) = \<lparr>name = basename p, fsize = sz, sub = []\<rparr>
                   \<and> fs_cache st' = (fs_cache st)(p \<mapsto> length (heap st))
                   \<and> sub (heap st' ! par) = sub (heap st ! par) @ [length (heap st)]
                   \<and> root_objects st' = root_objects st)"
  proof (intro allI impI, elim conjE)
    fix rec p sz par
    assume rec: "getitem rec ''path'' = Inr (JStr p)" "getitem rec ''type'' = Inr (JStr ''d'')"
      "getitem rec ''size'' = Inr sz" "p \<noteq> ''.''"
      and par: "fs_cache st (dirname p) = Some par"
    have "JStr ''d'' = JStr ''d'' \<or> dirname p \<noteq> ''''" by simp
    from attach_child [OF wf rec par this]
    show "\<exists>st'. process_record st rec = Inr st'
                   \<and> length (heap st') = Suc (length (heap st))
                   \<and> heap st' ! length (heap st) = \<lparr>name = basename p, fsize = sz, sub = []\<rparr>
                   \<and> fs_cache st' = (fs_cache st)(p \<mapsto> length (heap st))
                   \<and> sub (heap st' ! par) = sub (heap st ! par) @ [length (heap st)]
                   \<and> root_objects st' = root_objects st"
      by auto
  qed
  from first second show ?thesis by (rule conjI)
qed

theorem synthesis_idempotent_witness:
  "(\<exists>st'. process_new_dir_full_path
            \<lparr>heap = [\<lparr>name = ''a'', fsize = JInt 0, sub = []\<rparr>], root_objects = [0],
             fs_cache = [''a'' \<mapsto> 0], full_path = True\<rparr> ''a/b'' = Inr st'
      \<and> fs_cache st' ''a'' = Some 0
      \<and> process_new_dir_full_path st' ''a/b'' = Inr st')
   \<and> (\<exists>st'. process_record
            \<lparr>heap = [\<lparr>name = ''a'', fsize = JInt 0, sub = []\<rparr>], root_objects = [0],
             fs_cache = [''a'' \<mapsto> 0], full_path = True\<rparr>
            (JObj [(''path'', JStr ''a/b''), (''type'', JStr ''d''), (''size'', JInt 4096)])
          = Inr st'
      \<and> length (heap st') = 2)"
proof -
  let ?st = "\<lparr>heap = [\<lparr>name = ''a'', fsize = JInt 0, sub = []\<rparr>], root_objects = [0],
             fs_cache = [''a'' \<mapsto> 0], full_path = True\<rparr>"
  let ?rec = "JObj [(''path'', JStr ''a/b''), (''type'', JStr ''d''), (''size'', JInt 4096)]"
  note inst = synthesis_idempotent [OF run_a [of True], of "''a/b''"]
  have a: "fs_cache ?st ''a'' = Some 0" by simp
  have 1: "\<exists>st'. process_new_dir_full_path ?st ''a/b'' = Inr st'
      \<and> fs_cache st' ''a'' = Some 0 \<and> process_new_dir_full_path st' ''a/b'' = Inr st'"
    using inst [THEN conjunct1]
  proof (elim exE conjE)
    fix st'
    assume r: "process_new_dir_full_path ?st ''a/b'' = Inr st'"
      and k: "\<forall>k a. fs_cache ?st k = Some a \<longrightarrow> fs_cache st' k = Some a"
      and i: "process_new_dir_full_path st' ''a/b'' = Inr st'"
    from k a have "fs_cache st' ''a'' = Some 0" by blast
    with r i show ?thesis by blast
  qed
  have rec: "getitem ?rec ''path'' = Inr (JStr ''a/b'')
      \<and> getitem ?rec ''type'' = Inr (JStr ''d'') \<and> getitem ?rec ''size'' = Inr (JInt 4096)
      \<and> ''a/b'' \<noteq> ''.'' \<and> fs_cache ?st (dirname ''a/b'') = Some 0"
    by (simp add: path_simps)
  from inst [THEN conjunct2, rule_format, of ?rec "''a/b''" "JInt 4096" 0, OF rec]
  have "\<exists>st'. process_record ?st ?rec = Inr st'
      \<and> length (heap st') = Suc (length (heap ?st))"
    by (elim exE conjE) (rule exI, erule conjI, assumption)
  then have 2: "\<exists>st'. process_record ?st ?rec = Inr st' \<and> length (heap st') = 2"
    by (simp add: numeral_2_eq_2)
  from 1 2 show ?thesis by (rule conjI)
qed

text \<open>
  C3, as the code has it. The claim fails in the branch where the parent is already
  indexed: the entry of the directory record \<^verbatim>\<open>a/b\<close> with declared size 4096 has size
  4096.
\<close>

theorem directory_size_counterexample:
  \<open>process_lines example_loads (init True)
     [''{"path":"a","type":"d","size":0}'', ''{"path":"a/b","type":"d","size":4096}''] =
   Inr \<lparr>heap = [\<lparr>name = ''a'', fsize = JInt 0, sub = [1]\<rparr>,
                \<lparr>name = ''b'', fsize = JInt 4096, sub = []\<rparr>],
        root_objects = [0],
        fs_cache = [''a'' \<mapsto> 0, ''a/b'' \<mapsto> 1],
        full_path = True\<rparr>\<close>
  by (simp add: run_simps)

text \<open>
  C3 (amended). In a state reached by a run, a directory record (whose path, when the
  record is routed to full-path synthesis, is not yet indexed) creates and registers an
  entry for its path, named after the last component and without children, whose size
  is 0 when the parent is not indexed (ancestor synthesis, in both modes) and the
  declared size of the record when the parent is already indexed.
\<close>

theorem directory_entry_size:
  assumes reach: "process_lines loads (init fp) pre = Inr st"
    and "getitem rec ''path'' = Inr (JStr p)" and "getitem rec ''type'' = Inr (JStr ''d'')"
    and "getitem rec ''size'' = Inr sz" and "p \<noteq> ''.''"
    and fresh: "full_path st \<and> fs_cache st (dirname p) = None \<longrightarrow> fs_cache st p = None"
  shows "\<exists>st' a. process_record st rec = Inr st' \<and> fs_cache st' p = Some a
           \<and> length (heap st) \<le> a \<and> a < length (heap st')
           \<and> heap st' ! a =
               \<lparr>name = basename p,
                fsize = (if fs_cache st (dirname p) = None then JInt 0 else sz),
                sub = []\<rparr>"
proof -
  from reach wf_state_init have wf: "wf_state st" by (rule process_lines_wf)
  then have valid: "\<And>k a. fs_cache st k = Some a \<Longrightarrow> a < length (heap st)"
    by (simp add: wf_state_def)
  note eq = process_record_str [OF assms(2,3,4,5), of st]
  show ?thesis
  proof (cases "fs_cache st (dirname p)")
    case (Some par)
    from valid [OF Some] have "par \<noteq> length (heap st)" by simp
    with Some show ?thesis
      by (simp add: eq add_entry_def from_filename_def)
  next
    case None
    show ?thesis
    proof (cases "full_path st")
      case False
      with None show ?thesis
        by (simp add: eq process_new_dir_def process_new_dir_dataset_def alloc_def
            from_filename_def)
    next
      case True
      with None fresh have new: "fs_cache st p = None" by simp
      from process_new_dir_full_path_total [of st p]
      obtain st' where run: "process_new_dir_full_path st p = Inr st'" by blast
      from synthesized_entry [OF wf new run] None True run show ?thesis
        by (auto simp: eq process_new_dir_def)
    qed
  qed
qed

theorem directory_entry_size_witness:
  \<open>(\<exists>st' a. process_record
        \<lparr>heap = [\<lparr>name = ''a'', fsize = JInt 0, sub = []\<rparr>], root_objects = [0],
         fs_cache = [''a'' \<mapsto> 0], full_path = True\<rparr>
        (JObj [(''path'', JStr ''a/b''), (''type'', JStr ''d''), (''size'', JInt 4096)]) = Inr st'
      \<and> fs_cache st' ''a/b'' = Some a \<and> fsize (heap st' ! a) = JInt 4096)
   \<and> (\<exists>st' a. process_record (init True)
        (JObj [(''path'', JStr ''a/b''), (''type'', JStr ''d''), (''size'', JInt 4096)]) = Inr st'
      \<and> fs_cache st' ''a/b'' = Some a \<and> fsize (heap st' ! a) = JInt 0)\<close>
proof -
  let ?st = "\<lparr>heap = [\<lparr>name = ''a'', fsize = JInt 0, sub = []\<rparr>], root_objects = [0],
         fs_cache = [''a'' \<mapsto> 0], full_path = True\<rparr>"
  let ?rec = "JObj [(''path'', JStr ''a/b''), (''type'', JStr ''d''), (''size'', JInt 4096)]"
  have rec: "getitem ?rec ''path'' = Inr (JStr ''a/b'')"
    "getitem ?rec ''type'' = Inr (JStr ''d'')"
    "getitem ?rec ''size'' = Inr (JInt 4096)" "''a/b'' \<noteq> ''.''"
    by simp_all
  have 0: "process_lines example_loads (init True) [] = Inr (init True)" by simp
  have d: "dirname ''a/b'' = ''a''" by (simp add: path_simps)
  have "full_path ?st \<and> fs_cache ?st (dirname ''a/b'') = None \<longrightarrow> fs_cache ?st ''a/b'' = None"
    by (simp add: d)
  from directory_entry_size [OF run_a [of True] rec this]
  have 1: "\<exists>st' a. process_record ?st ?rec = Inr st' \<and> fs_cache st' ''a/b'' = Some a
      \<and> fsize (heap st' ! a) = JInt 4096"
    by (auto simp: d)
  have "full_path (init True) \<and> fs_cache (init True) (dirname ''a/b'') = None
      \<longrightarrow> fs_cache (init True) ''a/b'' = None"
    by (simp add: init_def)
  from directory_entry_size [OF 0 rec this]
  have 2: "\<exists>st' a. process_record (init True) ?rec = Inr st' \<and> fs_cache st' ''a/b'' = Some a
      \<and> fsize (heap st' ! a) = JInt 0"
    by (auto simp: d init_def)
  from 1 2 show ?thesis by (rule conjI)
qed

text \<open>
  C10, as the code has it. The claim fails in full-path mode for a path that begins with
  \<^verbatim>\<open>/\<close>: the first component of \<^verbatim>\<open>/a\<close> is empty, so the first prefix is the empty
  string, and an entry is indexed under it.
\<close>

theorem empty_key_counterexample:
  \<open>process_lines example_loads (init True) [''{"path":"/a","type":"d","size":0}''] =
   Inr \<lparr>heap = [\<lparr>name = '''', fsize = JInt 0, sub = []\<rparr>,
                \<lparr>name = ''a'', fsize = JInt 0, sub = []\<rparr>],
        root_objects = [0, 1],
        fs_cache = ['''' \<mapsto> 0, ''/a'' \<mapsto> 1],
        full_path = True\<rparr>\<close>
  by (simp add: run_simps)

text \<open>
  C10 (amended). Provided every record's path is a non-empty string and, in full-path
  mode, does not begin with \<^verbatim>\<open>/\<close>, the empty string is never a key of the index after a
  run; so a directory record whose \<^verbatim>\<open>parent_dir\<close> is empty never takes the branch of an
  indexed parent and is always routed to \<^verbatim>\<open>_process_new_dir\<close>.
\<close>

theorem empty_key_never_indexed:
  assumes run: "process_lines loads (init fp) lines = Inr st"
    and paths: "\<forall>l\<in>set lines. \<forall>rec p. loads l = Some rec \<longrightarrow>
                  getitem rec ''path'' = Inr (JStr p) \<longrightarrow>
                  p \<noteq> '''' \<and> (fp \<longrightarrow> hd p \<noteq> CHR ''/'')"
  shows "fs_cache st '''' = None
       \<and> (\<forall>rec p sz. getitem rec ''path'' = Inr (JStr p)
              \<and> getitem rec ''type'' = Inr (JStr ''d'') \<and> getitem rec ''size'' = Inr sz
              \<and> p \<noteq> ''.'' \<and> dirname p = ''''
            \<longrightarrow> process_record st rec = process_new_dir st p)"
proof -
  let ?P = "\<lambda>s. fs_cache s '''' = None \<and> full_path s = fp"
  have "?P st"
  proof (rule process_lines_invariant [OF run, of ?P])
    show "?P (init fp)" by (simp add: init_def)
  next
    fix s l rec s'
    assume P: "?P s" and l: "l \<in> set lines" and rec: "loads l = Some rec"
      and step: "process_record s rec = Inr s'"
    from paths l rec P
    have "\<forall>p. getitem rec ''path'' = Inr (JStr p) \<longrightarrow>
            p \<noteq> '''' \<and> (full_path s \<longrightarrow> hd p \<noteq> CHR ''/'')" by blast
    with P step have "fs_cache s' '''' = None" by (blast intro: process_record_keeps_empty_key)
    moreover from process_record_flag [OF step] P have "full_path s' = fp" by simp
    ultimately show "?P s'" by simp
  qed
  then have none: "fs_cache st '''' = None" by simp
  have "process_record st rec = process_new_dir st p"
    if "getitem rec ''path'' = Inr (JStr p)" "getitem rec ''type'' = Inr (JStr ''d'')"
      "getitem rec ''size'' = Inr sz" "p \<noteq> ''.''" "dirname p = ''''" for rec p sz
    using none that(5) by (simp add: process_record_str [OF that(1,2,3,4)])
  with none show ?thesis by blast
qed

theorem empty_key_never_indexed_witness:
  \<open>fs_cache \<lparr>heap = [\<lparr>name = ''a'', fsize = JInt 0, sub = []\<rparr>], root_objects = [0],
         fs_cache = [''a'' \<mapsto> 0], full_path = True\<rparr> '''' = None
   \<and> process_record
        \<lparr>heap = [\<lparr>name = ''a'', fsize = JInt 0, sub = []\<rparr>], root_objects = [0],
         fs_cache = [''a'' \<mapsto> 0], full_path = True\<rparr>
        (JObj [(''path'', JStr ''b''), (''type'', JStr ''d''), (''size'', JInt 0)])
     = process_new_dir
        \<lparr>heap = [\<lparr>name = ''a'', fsize = JInt 0, sub = []\<rparr>], root_objects = [0],
         fs_cache = [''a'' \<mapsto> 0], full_path = True\<rparr> ''b''\<close>
proof -
  let ?rec = "JObj [(''path'', JStr ''b''), (''type'', JStr ''d''), (''size'', JInt 0)]"
  have paths: \<open>\<forall>l\<in>set [''{"path":"a","type":"d","size":0}'']. \<forall>rec p.
      example_loads l = Some rec \<longrightarrow> getitem rec ''path'' = Inr (JStr p) \<longrightarrow>
      p \<noteq> '''' \<and> (True \<longrightarrow> hd p \<noteq> CHR ''/'')\<close>
    by (auto simp: example_loads_def)
  have rec: "getitem ?rec ''path'' = Inr (JStr ''b'')
      \<and> getitem ?rec ''type'' = Inr (JStr ''d'') \<and> getitem ?rec ''size'' = Inr (JInt 0)
      \<and> ''b'' \<noteq> ''.'' \<and> dirname ''b'' = ''''"
    by (simp add: path_simps)
  from empty_key_never_indexed [OF run_a [of True] paths] rec show ?thesis by blast
qed

end
